theory Spec2Isabelle
  imports Complex_Main "HOL-Library.Word" "HOL-Library.Sublist" "HOL-Library.Multiset"
begin

section \<open>Data model\<close>

text \<open>
  The converter is TypeScript. Pixel counts, byte sizes and list indices are natural
  numbers, and rotation angles in degrees are integers (the controls only ever add whole
  degrees to an initial 0). The arithmetic of \<open>calculateImageDimensions\<close>, of the
  brightness and contrast adjustment and of \<open>rotateCanvas\<close> is the arithmetic of
  JavaScript numbers, IEEE-754 doubles, modelled below. The lengths that the conversion
  loops add and halve to place an image on the page (margins, cell sizes, positions) are
  real numbers in millimetres.
\<close>

section \<open>JavaScript numbers\<close>

text \<open>
  A number is a finite double, an infinity or NaN. A finite double is modelled by the
  real number it stands for; the sign of a zero is not modelled (it shows only when a
  number is divided by a negative zero).
\<close>

datatype number = Num real | PosInfinity | NegInfinity | NaN

text \<open>
  Rounding to the nearest integer, a tie going to the even one, and rounding of a real
  number to the nearest double: the spacing \<open>ulp x\<close> of the doubles around \<open>x\<close> is
  \<open>2\<close> to the power \<open>e - 52\<close>, where \<open>2 ^ e \<le> \<bar>x\<bar> < 2 ^ (e + 1)\<close> and \<open>e\<close> is at least
  \<open>-1022\<close> (below that the doubles are subnormal and equally spaced); a result of
  magnitude \<open>2 ^ 1024\<close> or more is an infinity.
\<close>

definition roundEven :: "real \<Rightarrow> int" where
  "roundEven x =
     (let f = \<lfloor>x\<rfloor> in
      if x - of_int f < 1 / 2 then f
      else if 1 / 2 < x - of_int f then f + 1
      else if even f then f
      else f + 1)"

definition expo :: "real \<Rightarrow> int" where
  "expo x = max \<lfloor>log 2 \<bar>x\<bar>\<rfloor> (- 1022)"

definition ulp :: "real \<Rightarrow> real" where
  "ulp x = 2 powr of_int (expo x - 52)"

definition roundToDouble :: "real \<Rightarrow> real" where
  "roundToDouble x = of_int (roundEven (x / ulp x)) * ulp x"

definition fl :: "real \<Rightarrow> number" where
  "fl x =
     (let r = roundToDouble x in
      if 2 ^ 1024 \<le> r then PosInfinity
      else if r \<le> - (2 ^ 1024) then NegInfinity
      else Num r)"

text \<open>A double is a real number that rounding leaves as it is.\<close>

definition isDouble :: "real \<Rightarrow> bool" where
  "isDouble x \<longleftrightarrow> fl x = Num x"

text \<open>
  The operators \<open>+\<close>, \<open>-\<close>, \<open>*\<close>, \<open>/\<close> and \<open>>\<close> on numbers: the exact result rounded to
  a double, and the rules of IEEE-754 for infinities, NaN and division by zero.
\<close>

fun js_neg :: "number \<Rightarrow> number" where
  "js_neg (Num a) = Num (- a)"
| "js_neg PosInfinity = NegInfinity"
| "js_neg NegInfinity = PosInfinity"
| "js_neg NaN = NaN"

fun js_add :: "number \<Rightarrow> number \<Rightarrow> number" where
  "js_add NaN b = NaN"
| "js_add a NaN = NaN"
| "js_add (Num a) (Num b) = fl (a + b)"
| "js_add PosInfinity NegInfinity = NaN"
| "js_add NegInfinity PosInfinity = NaN"
| "js_add PosInfinity b = PosInfinity"
| "js_add NegInfinity b = NegInfinity"
| "js_add (Num a) b = b"

definition js_sub :: "number \<Rightarrow> number \<Rightarrow> number" where
  "js_sub a b = js_add a (js_neg b)"

fun js_mul :: "number \<Rightarrow> number \<Rightarrow> number" where
  "js_mul NaN b = NaN"
| "js_mul a NaN = NaN"
| "js_mul (Num a) (Num b) = fl (a * b)"
| "js_mul (Num a) b = (if a = 0 then NaN else if 0 < a then b else js_neg b)"
| "js_mul a (Num b) = (if b = 0 then NaN else if 0 < b then a else js_neg a)"
| "js_mul PosInfinity b = b"
| "js_mul NegInfinity b = js_neg b"

fun js_div :: "number \<Rightarrow> number \<Rightarrow> number" where
  "js_div NaN b = NaN"
| "js_div a NaN = NaN"
| "js_div (Num a) (Num b) =
     (if b = 0 then (if a = 0 then NaN else if 0 < a then PosInfinity else NegInfinity)
      else fl (a / b))"
| "js_div (Num a) b = Num 0"
| "js_div a (Num b) = (if 0 \<le> b then a else js_neg a)"
| "js_div a b = NaN"

fun js_gt :: "number \<Rightarrow> number \<Rightarrow> bool" where
  "js_gt NaN b = False"
| "js_gt a NaN = False"
| "js_gt (Num a) (Num b) = (b < a)"
| "js_gt PosInfinity b = (b \<noteq> PosInfinity)"
| "js_gt a NegInfinity = (a \<noteq> NegInfinity)"
| "js_gt a b = False"

text \<open>
  \<open>Math.max\<close> and \<open>Math.min\<close> of two numbers (NaN when one of them is NaN),
  \<open>Math.abs\<close>, \<open>Math.ceil\<close>, and the constant \<open>Math.PI\<close>, the double nearest to \<open>\<pi>\<close>.
\<close>

definition Math_max :: "number \<Rightarrow> number \<Rightarrow> number" where
  "Math_max a b = (if a = NaN \<or> b = NaN then NaN else if js_gt b a then b else a)"

definition Math_min :: "number \<Rightarrow> number \<Rightarrow> number" where
  "Math_min a b = (if a = NaN \<or> b = NaN then NaN else if js_gt a b then b else a)"

fun Math_abs :: "number \<Rightarrow> number" where
  "Math_abs (Num a) = Num \<bar>a\<bar>"
| "Math_abs NaN = NaN"
| "Math_abs a = PosInfinity"

fun Math_ceil :: "number \<Rightarrow> number" where
  "Math_ceil (Num a) = Num (of_int \<lceil>a\<rceil>)"
| "Math_ceil a = a"

definition Math_PI :: real where
  "Math_PI = 884279719003555 / 2 ^ 48"

section \<open>Records of the application\<close>

record 'n Dimensions =
  width :: 'n
  height :: 'n

record File =
  File_name :: string
  File_type :: string
  File_size :: nat

text \<open>
  \<open>ImageData\<close> of the converter library. The field \<open>id\<close> is called \<open>image_id\<close> here,
  as \<open>id\<close> is the identity function of HOL, and \<open>file\<close> is called \<open>file_obj\<close>.
\<close>

record ImageData =
  image_id :: string
  file_obj :: File
  preview :: string
  name :: string
  dimensions :: "nat Dimensions"
  rotation :: int
  brightness :: real
  contrast :: real

text \<open>
  \<open>ImageFile\<close> of the page component has every field of \<open>ImageData\<close> and three more
  (\<open>size\<close>, \<open>uploadTime\<close>, \<open>order\<close>); \<open>size\<close> is called \<open>size_bytes\<close> here.
\<close>

record ImageFile = ImageData +
  size_bytes :: nat
  uploadTime :: nat
  order :: nat

section \<open>Scaling an image to the content area\<close>

definition calculateImageDimensions ::
  "number \<Rightarrow> number \<Rightarrow> number \<Rightarrow> number \<Rightarrow> number Dimensions" where
  "calculateImageDimensions imgWidth imgHeight maxWidth maxHeight =
     (let aspectRatio = js_div imgWidth imgHeight;
          width0 = maxWidth;
          height0 = js_div width0 aspectRatio
      in if js_gt height0 maxHeight
         then \<lparr>width = js_mul maxHeight aspectRatio, height = maxHeight\<rparr>
         else \<lparr>width = width0, height = height0\<rparr>)"

section \<open>Brightness and contrast of a canvas\<close>

text \<open>
  A canvas has its pixel dimensions and, when \<open>getContext('2d')\<close> yields a context,
  the buffer of that context: four bytes (red, green, blue, alpha) for each pixel, row by
  row. \<open>getImageData\<close> over the whole canvas reads the buffer and \<open>putImageData\<close> at
  the origin writes it back.
\<close>

record Canvas = "nat Dimensions" +
  ctx2d :: "8 word list option"

text \<open>\<open>Math.max(0, Math.min(255, x))\<close>.\<close>

definition clamp255 :: "number \<Rightarrow> number" where
  "clamp255 x = Math_max (Num 0) (Math_min (Num 255) x)"

text \<open>
  The buffer is a \<open>Uint8ClampedArray\<close>: a number stored in it is converted by the
  operation ToUint8Clamp of ECMAScript, which takes NaN to 0, clamps to \<open>[0, 255]\<close> and
  rounds to the nearest integer, a tie going to the even one. An element read from the
  buffer is the number of its byte.
\<close>

fun ToUint8Clamp :: "number \<Rightarrow> 8 word" where
  "ToUint8Clamp NaN = 0"
| "ToUint8Clamp PosInfinity = 255"
| "ToUint8Clamp NegInfinity = 0"
| "ToUint8Clamp (Num x) =
     (if x \<le> 0 then 0
      else if 255 \<le> x then 255
      else
        let f = \<lfloor>x\<rfloor> in
        if of_int f + 1 / 2 < x then word_of_int (f + 1)
        else if x < of_int f + 1 / 2 then word_of_int f
        else if even f then word_of_int f
        else word_of_int (f + 1))"

definition byteValue :: "8 word \<Rightarrow> number" where
  "byteValue c = Num (real (unat c))"

text \<open>
  One colour byte through one turn of the loop: the brightness assignment stores its
  result in the buffer, and the contrast assignment reads the stored byte. The products,
  the difference and the sum are those of doubles.
\<close>

definition adjustChannel :: "number \<Rightarrow> number \<Rightarrow> 8 word \<Rightarrow> 8 word" where
  "adjustChannel brightnessFactor contrastFactor c =
     (let c1 = ToUint8Clamp (clamp255 (js_mul (byteValue c) brightnessFactor))
      in ToUint8Clamp
           (clamp255 (js_add (js_mul (js_sub (byteValue c1) (Num 128)) contrastFactor)
              (Num 128))))"

text \<open>
  The loop \<open>for (i = 0; i < data.length; i += 4)\<close> over the buffer. A buffer whose
  length is no multiple of four does not come from a canvas; the loop would still adjust
  the one to three bytes that are left, and its writes past the end are ignored.
\<close>

fun adjustLoop :: "number \<Rightarrow> number \<Rightarrow> 8 word list \<Rightarrow> 8 word list" where
  "adjustLoop bf cf (r # g # b # a # rest) =
     adjustChannel bf cf r # adjustChannel bf cf g # adjustChannel bf cf b # a
       # adjustLoop bf cf rest"
| "adjustLoop bf cf xs = map (adjustChannel bf cf) xs"

definition adjustBrightnessContrast :: "Canvas \<Rightarrow> number \<Rightarrow> number \<Rightarrow> Canvas" where
  "adjustBrightnessContrast canvas brightnessArg contrastArg =
     (case ctx2d canvas of
        None \<Rightarrow> canvas
      | Some data \<Rightarrow>
          let brightnessFactor = js_add (Num 1) (js_div brightnessArg (Num 100));
              contrastFactor = js_add (Num 1) (js_div contrastArg (Num 100))
          in canvas\<lparr>ctx2d := Some (adjustLoop brightnessFactor contrastFactor data)\<rparr>)"

text \<open>
  The value that the specification gives for a colour byte \<open>c\<close>, in its own words and
  in real numbers: brightness applied and clamped, then contrast applied around 128 and
  clamped.
\<close>

definition specChannel :: "real \<Rightarrow> real \<Rightarrow> real \<Rightarrow> real" where
  "specChannel b k c =
     max 0 (min 255 ((max 0 (min 255 (c * (1 + b / 100))) - 128) * (1 + k / 100) + 128))"

section \<open>Rotation of an image record\<close>

text \<open>
  The remainder operator \<open>%\<close> of JavaScript truncates towards zero: the result has the
  sign of the dividend.
\<close>

definition js_rem :: "int \<Rightarrow> int \<Rightarrow> int" where
  "js_rem a b = sgn a * (\<bar>a\<bar> mod \<bar>b\<bar>)"

definition rotateImage :: "'a ImageData_scheme \<Rightarrow> int \<Rightarrow> 'a ImageData_scheme" where
  "rotateImage imageData degrees =
     imageData\<lparr>rotation := js_rem (rotation imageData + degrees) 360\<rparr>"

definition rotateImageHandler :: "ImageFile list \<Rightarrow> string \<Rightarrow> int \<Rightarrow> ImageFile list" where
  "rotateImageHandler prev i degrees =
     map (\<lambda>img. if image_id img = i
                 then img\<lparr>rotation := js_rem (rotation img + degrees) 360\<rparr>
                 else img) prev"

section \<open>The page component: upload and reordering\<close>

datatype SortOption = ByName | BySize | ByDate | ByDimensions | Custom

text \<open>
  The messages shown to the user are built from templates; a message is modelled by its
  template and the values filled in.
\<close>

datatype message =
    MaximumImages
  | NotValidImage string
  | ExceedsLimit string
  | Uploaded nat

text \<open>
  The part of the component's state that upload and reordering read and write.
  \<open>draggedImage\<close> is \<open>string | null\<close> in the source.
\<close>

record PageState =
  images :: "ImageFile list"
  error :: "message option"
  success :: "message option"
  draggedImage :: "string option"
  dragOverImage :: "string option"
  sortBy :: SortOption

text \<open>
  What the browser supplies during an upload: the identifier drawn by \<open>Math.random\<close>
  for the file at each index of the batch, the object URL of a file, and the clock.
\<close>

record Browser =
  randomId :: "nat \<Rightarrow> string"
  createObjectURL :: "File \<Rightarrow> string"
  currentTime :: "nat \<Rightarrow> nat"

text \<open>
  The filter of \<open>handleFileSelect\<close>: the message set for a rejected file, if any.
  In \<open>handleFileSelect\<close> the count is checked against the list that the callback
  read, and the updater of \<open>setImages\<close> appends to the current list; the two are the
  same list when the calls come one at a time, as modelled here.
\<close>

definition fileError :: "File \<Rightarrow> message option" where
  "fileError f =
     (if \<not> prefix ''image/'' (File_type f) then Some (NotValidImage (File_name f))
      else if File_size f > 10 * 1024 * 1024 then Some (ExceedsLimit (File_name f))
      else None)"

definition newImage :: "Browser \<Rightarrow> nat \<Rightarrow> nat \<times> File \<Rightarrow> ImageFile" where
  "newImage env n = (\<lambda>(index, f).
     \<lparr>image_id = randomId env index,
      file_obj = f,
      preview = createObjectURL env f,
      name = File_name f,
      dimensions = \<lparr>width = 0, height = 0\<rparr>,
      rotation = 0,
      brightness = 0,
      contrast = 0,
      size_bytes = File_size f,
      uploadTime = currentTime env index,
      order = n + index\<rparr>)"

definition handleFileSelect :: "Browser \<Rightarrow> PageState \<Rightarrow> File list option \<Rightarrow> PageState" where
  "handleFileSelect env st files =
     (case files of
        None \<Rightarrow> st
      | Some fs \<Rightarrow>
          let st1 = st\<lparr>error := None, success := None\<rparr> in
          if length (images st) + length fs > 50
          then st1\<lparr>error := Some MaximumImages\<rparr>
          else
            let validFiles = filter (\<lambda>f. fileError f = None) fs;
                errs = List.map_filter fileError fs;
                st2 = (if errs = [] then st1 else st1\<lparr>error := Some (last errs)\<rparr>)
            in if length validFiles = 0 then st2
               else
                 let newImages = map (newImage env (length (images st)))
                                     (enumerate 0 validFiles)
                 in st2\<lparr>images := images st2 @ newImages,
                        success := Some (Uploaded (length validFiles))\<rparr>)"

text \<open>
  The \<open>onload\<close> callback that \<open>handleFileSelect\<close> registers for each new image runs
  later and stores the pixel dimensions of the loaded image.
\<close>

definition imageLoaded :: "PageState \<Rightarrow> string \<Rightarrow> nat \<Rightarrow> nat \<Rightarrow> PageState" where
  "imageLoaded st i w h =
     st\<lparr>images := map (\<lambda>p. if image_id p = i
                              then p\<lparr>dimensions := \<lparr>width = w, height = h\<rparr>\<rparr>
                              else p) (images st)\<rparr>"

text \<open>The invariant of a session: what upload validation guarantees of the image list.\<close>

definition validImage :: "ImageFile \<Rightarrow> bool" where
  "validImage img \<longleftrightarrow>
     prefix ''image/'' (File_type (file_obj img))
     \<and> File_size (file_obj img) \<le> 10 * 1024 * 1024
     \<and> size_bytes img \<le> 10 * 1024 * 1024"

definition sessionInvariant :: "ImageFile list \<Rightarrow> bool" where
  "sessionInvariant imgs \<longleftrightarrow> list_all validImage imgs \<and> length imgs \<le> 50"

text \<open>
  \<open>Array.prototype.findIndex\<close> returns \<open>-1\<close> when no element matches, and
  \<open>Array.prototype.splice\<close> (\<open>splice_js\<close> here) counts a negative start from the end
  and clamps it to the array.
\<close>

fun findIndex :: "('a \<Rightarrow> bool) \<Rightarrow> 'a list \<Rightarrow> int" where
  "findIndex P [] = - 1"
| "findIndex P (x # xs) =
     (if P x then 0 else (let r = findIndex P xs in if r < 0 then - 1 else r + 1))"

definition splice_js :: "'a list \<Rightarrow> int \<Rightarrow> nat \<Rightarrow> 'a list \<Rightarrow> 'a list" where
  "splice_js xs start deleteCount items =
     (let n = int (length xs);
          s = nat (if start < 0 then max (n + start) 0 else min start n)
      in take s xs @ items @ drop (s + deleteCount) xs)"

definition reorder :: "ImageFile list \<Rightarrow> string \<Rightarrow> string \<Rightarrow> ImageFile list" where
  "reorder prev dragged targetImageId =
     (case (find (\<lambda>img. image_id img = dragged) prev,
            find (\<lambda>img. image_id img = targetImageId) prev) of
        (Some draggedImg, Some targetImg) \<Rightarrow>
          let draggedIndex = findIndex (\<lambda>img. image_id img = dragged) prev;
              targetIndex = findIndex (\<lambda>img. image_id img = targetImageId) prev;
              newImages1 = splice_js prev draggedIndex 1 [];
              newImages2 = splice_js newImages1 targetIndex 0 [draggedImg]
          in map (\<lambda>(index, img). img\<lparr>order := index\<rparr>) (enumerate 0 newImages2)
      | _ \<Rightarrow> prev)"

text \<open>
  \<open>!draggedImage\<close> holds for \<open>null\<close> and for the empty string, which JavaScript
  counts as false.
\<close>

definition handleImageDrop :: "PageState \<Rightarrow> string \<Rightarrow> PageState" where
  "handleImageDrop st targetImageId =
     (case draggedImage st of
        None \<Rightarrow> st\<lparr>draggedImage := None, dragOverImage := None\<rparr>
      | Some dragged \<Rightarrow>
          if dragged = [] \<or> dragged = targetImageId
          then st\<lparr>draggedImage := None, dragOverImage := None\<rparr>
          else st\<lparr>images := reorder (images st) dragged targetImageId,
                  draggedImage := None, dragOverImage := None, sortBy := Custom\<rparr>)"

section \<open>The converter: from images to a PDF document\<close>

datatype PageSize = A4 | Letter | Legal
datatype Orientation = Portrait | Landscape
datatype Quality = Low | Medium | High
datatype Layout = OnePerPage | MultiplePerPage

record PDFSettings =
  pageSize :: PageSize
  orientation :: Orientation
  quality :: Quality
  layout :: Layout

datatype js_error = Error string

subsection \<open>The document of the PDF library\<close>

text \<open>
  The converter hands its pages to the library jsPDF, which is not part of the
  repository. Of a document the model keeps what the converter's calls put on each page,
  in the order of the calls, and the font size and text colour in force. A document
  starts with one empty page; \<open>addPage\<close> appends an empty page, and every drawing call
  draws on the last page, the current one (the converter never selects another page).
  Lengths are in millimetres. The font size 16 and the black text colour of a new
  document are the defaults of the library. \<open>addImage\<close> throws on image data that the
  library rejects; \<open>addPage\<close>, the text calls and \<open>output\<close> are taken not to throw.
\<close>

datatype DrawOp =
    DrawImage string real real real real
  | DrawText string real real

record jsPDF =
  docFormat :: PageSize
  docOrientation :: Orientation
  pages :: "DrawOp list list"
  fontSize :: nat
  textColor :: "nat \<times> nat \<times> nat"

datatype Blob = PdfBlob "DrawOp list list"

text \<open>
  What the browser and the library decide during a conversion: whether the preview URL
  of an image loads, and into which canvas (\<open>imageToCanvas\<close>); the functions
  \<open>Math.cos\<close> and \<open>Math.sin\<close>, which ECMAScript leaves to the implementation; the
  pixels of the canvas that \<open>rotateCanvas\<close> draws through a translated and rotated 2D
  context, or that the new canvas yields no context (\<open>rotatedContext\<close>, of the old
  canvas, the angle in radians and the new width and height); the JPEG data URL of a
  canvas at a quality, or the exception of \<open>toDataURL\<close>; and whether \<open>addImage\<close>
  rejects image data.
\<close>

record Raster =
  imageToCanvas :: "string \<Rightarrow> js_error + Canvas"
  Math_cos :: "number \<Rightarrow> number"
  Math_sin :: "number \<Rightarrow> number"
  rotatedContext :: "Canvas \<Rightarrow> number \<Rightarrow> number \<Rightarrow> number \<Rightarrow> 8 word list option"
  toDataURL :: "Canvas \<Rightarrow> real \<Rightarrow> js_error + string"
  addImageRejects :: "string \<Rightarrow> bool"

text \<open>
  The width and the height of a canvas element are unsigned long attributes: a number
  assigned to one of them is converted by ToUint32 (NaN and the infinities to 0, a finite
  number truncated and taken modulo \<open>2 ^ 32\<close>), and a value above \<open>2 ^ 31 - 1\<close> is
  replaced by the default of the attribute, 300 for the width and 150 for the height.
\<close>

fun ToUint32 :: "number \<Rightarrow> nat" where
  "ToUint32 (Num a) = nat ((if a < 0 then - \<lfloor>- a\<rfloor> else \<lfloor>a\<rfloor>) mod 2 ^ 32)"
| "ToUint32 a = 0"

definition canvasLength :: "nat \<Rightarrow> number \<Rightarrow> nat" where
  "canvasLength dflt x = (let n = ToUint32 x in if n < 2 ^ 31 then n else dflt)"

text \<open>
  \<open>rotateCanvas\<close>: the size of the new canvas is computed in doubles from the angle in
  radians, \<open>(degrees * Math.PI) / 180\<close>.
\<close>

definition rotateCanvas :: "Raster \<Rightarrow> Canvas \<Rightarrow> number \<Rightarrow> Canvas" where
  "rotateCanvas env canvas degrees =
     (case ctx2d canvas of
        None \<Rightarrow> canvas
      | Some data \<Rightarrow>
          let radians = js_div (js_mul degrees (Num Math_PI)) (Num 180);
              cos = Math_abs (Math_cos env radians);
              sin = Math_abs (Math_sin env radians);
              canvas_width = Num (real (width canvas));
              canvas_height = Num (real (height canvas));
              newWidth = Math_ceil (js_add (js_mul canvas_width cos)
                                      (js_mul canvas_height sin));
              newHeight = Math_ceil (js_add (js_mul canvas_width sin)
                                       (js_mul canvas_height cos))
          in case rotatedContext env canvas radians newWidth newHeight of
               None \<Rightarrow> canvas
             | Some rotated \<Rightarrow>
                 \<lparr>width = canvasLength 300 newWidth, height = canvasLength 150 newHeight,
                  ctx2d = Some rotated\<rparr>)"

definition onCurrentPage :: "(DrawOp list \<Rightarrow> DrawOp list) \<Rightarrow> jsPDF \<Rightarrow> jsPDF" where
  "onCurrentPage f pdf = pdf\<lparr>pages := butlast (pages pdf) @ [f (last (pages pdf))]\<rparr>"

definition addPage :: "jsPDF \<Rightarrow> jsPDF" where
  "addPage pdf = pdf\<lparr>pages := pages pdf @ [[]]\<rparr>"

definition addImage ::
  "Raster \<Rightarrow> string \<Rightarrow> real \<Rightarrow> real \<Rightarrow> real \<Rightarrow> real \<Rightarrow> jsPDF \<Rightarrow> js_error + jsPDF" where
  "addImage env imgData x y w h pdf =
     (if addImageRejects env imgData then Inl (Error ''addImage'')
      else Inr (onCurrentPage (\<lambda>page. page @ [DrawImage imgData x y w h]) pdf))"

definition setFontSize :: "nat \<Rightarrow> jsPDF \<Rightarrow> jsPDF" where
  "setFontSize n pdf = pdf\<lparr>fontSize := n\<rparr>"

definition setTextColor :: "nat \<Rightarrow> nat \<Rightarrow> nat \<Rightarrow> jsPDF \<Rightarrow> jsPDF" where
  "setTextColor r g b pdf = pdf\<lparr>textColor := (r, g, b)\<rparr>"

definition drawText :: "string \<Rightarrow> real \<Rightarrow> real \<Rightarrow> jsPDF \<Rightarrow> jsPDF" where
  "drawText str x y pdf = onCurrentPage (\<lambda>page. page @ [DrawText str x y]) pdf"

definition outputBlob :: "jsPDF \<Rightarrow> Blob" where
  "outputBlob pdf = PdfBlob (pages pdf)"

subsection \<open>The class PDFConverter\<close>

definition getPageDimensions :: "PDFSettings \<Rightarrow> real Dimensions" where
  "getPageDimensions settings =
     (case pageSize settings of
        A4 \<Rightarrow> (if orientation settings = Portrait
               then \<lparr>width = 210, height = 297\<rparr>
               else \<lparr>width = 297, height = 210\<rparr>)
      | Letter \<Rightarrow> (if orientation settings = Portrait
               then \<lparr>width = 215.9, height = 279.4\<rparr>
               else \<lparr>width = 279.4, height = 215.9\<rparr>)
      | Legal \<Rightarrow> (if orientation settings = Portrait
               then \<lparr>width = 215.9, height = 355.6\<rparr>
               else \<lparr>width = 355.6, height = 215.9\<rparr>))"

definition getQualityValue :: "PDFSettings \<Rightarrow> real" where
  "getQualityValue settings =
     (case quality settings of Low \<Rightarrow> 0.5 | Medium \<Rightarrow> 0.7 | High \<Rightarrow> 0.9)"

definition createPDFDocument :: "PDFSettings \<Rightarrow> jsPDF" where
  "createPDFDocument settings =
     \<lparr>docFormat = pageSize settings, docOrientation = orientation settings,
      pages = [[]], fontSize = 16, textColor = (0, 0, 0)\<rparr>"

text \<open>
  \<open>processImage\<close>. The rotation of an image record is a whole number of degrees, and
  its brightness and contrast are the numbers that the sliders set; they are passed on
  as numbers.
\<close>

definition processImage :: "Raster \<Rightarrow> 'a ImageData_scheme \<Rightarrow> js_error + Canvas" where
  "processImage env img =
     (case imageToCanvas env (preview img) of
        Inl e \<Rightarrow> Inl e
      | Inr canvas \<Rightarrow>
          let canvas1 = (if rotation img \<noteq> 0
                         then rotateCanvas env canvas (Num (of_int (rotation img)))
                         else canvas);
              canvas2 = (if brightness img \<noteq> 0 \<or> contrast img \<noteq> 0
                         then adjustBrightnessContrast canvas1 (Num (brightness img))
                                (Num (contrast img))
                         else canvas1)
          in Inr canvas2)"

text \<open>
  The loops keep their lengths on the page as real numbers: the page sizes, the margins
  and the positions that sums, differences and halves give from them. \<open>scaledSize\<close> is
  the call of \<open>calculateImageDimensions\<close> on the pixel dimensions of a canvas and
  such lengths, with the result read as real numbers; a component that is no finite
  number (the height is NaN for a canvas of 0 by 0 pixels) is read as 0.
\<close>

fun finiteValue :: "number \<Rightarrow> real" where
  "finiteValue (Num a) = a"
| "finiteValue a = 0"

definition scaledSize :: "nat \<Rightarrow> nat \<Rightarrow> real \<Rightarrow> real \<Rightarrow> real Dimensions" where
  "scaledSize imgWidth imgHeight maxWidth maxHeight =
     (let d = calculateImageDimensions (Num (real imgWidth)) (Num (real imgHeight))
                (Num maxWidth) (Num maxHeight)
      in \<lparr>width = finiteValue (width d), height = finiteValue (height d)\<rparr>)"

text \<open>
  One turn of the loop of \<open>convertOnePerPage\<close>, for the image at index \<open>i\<close>. An
  exception in the \<open>try\<close> block is caught and logged; what the block did to the
  document before the exception stays done.
\<close>

definition onePerPageStep ::
  "Raster \<Rightarrow> PDFSettings \<Rightarrow> nat \<Rightarrow> 'a ImageData_scheme \<Rightarrow> jsPDF \<Rightarrow> jsPDF" where
  "onePerPageStep env settings i img pdf =
     (let pageDimensions = getPageDimensions settings;
          margin = 20;
          maxWidth = width pageDimensions - margin * 2;
          maxHeight = height pageDimensions - margin * 2
      in case processImage env img of
           Inl e \<Rightarrow> pdf
         | Inr canvas \<Rightarrow>
             let d = scaledSize (width canvas) (height canvas) maxWidth maxHeight;
                 pdf1 = (if i > 0 then addPage pdf else pdf);
                 x = margin + (maxWidth - width d) / 2;
                 y = margin + (maxHeight - height d) / 2
             in case toDataURL env canvas (getQualityValue settings) of
                  Inl e \<Rightarrow> pdf1
                | Inr imgData \<Rightarrow>
                    (case addImage env imgData x y (width d) (height d) pdf1 of
                       Inl e \<Rightarrow> pdf1
                     | Inr pdf2 \<Rightarrow>
                         let captionY = y + height d + 10
                         in if captionY < height pageDimensions - margin
                            then drawText (name img) x captionY
                                   (setTextColor 100 100 100 (setFontSize 10 pdf2))
                            else pdf2))"

fun convertOnePerPageFrom ::
  "Raster \<Rightarrow> PDFSettings \<Rightarrow> nat \<Rightarrow> 'a ImageData_scheme list \<Rightarrow> jsPDF \<Rightarrow> jsPDF" where
  "convertOnePerPageFrom env settings i [] pdf = pdf"
| "convertOnePerPageFrom env settings i (img # rest) pdf =
     convertOnePerPageFrom env settings (Suc i) rest (onePerPageStep env settings i img pdf)"

definition convertOnePerPage ::
  "Raster \<Rightarrow> PDFSettings \<Rightarrow> jsPDF \<Rightarrow> 'a ImageData_scheme list \<Rightarrow> jsPDF" where
  "convertOnePerPage env settings pdf imgs = convertOnePerPageFrom env settings 0 imgs pdf"

text \<open>
  The loop of \<open>convertMultiplePerPage\<close> carries the document, \<open>currentPage\<close> and
  \<open>imagesOnCurrentPage\<close>. The page is added before the \<open>try\<close> block; the counter of
  images on the page moves only when the block runs to its end.
\<close>

record GridState =
  doc :: jsPDF
  currentPage :: nat
  imagesOnCurrentPage :: nat

definition multiplePerPageStep ::
  "Raster \<Rightarrow> PDFSettings \<Rightarrow> nat \<Rightarrow> 'a ImageData_scheme \<Rightarrow> GridState \<Rightarrow> GridState" where
  "multiplePerPageStep env settings i img st =
     (let pageDimensions = getPageDimensions settings;
          margin = 15;
          maxWidth = width pageDimensions - margin * 2;
          maxHeight = height pageDimensions - margin * 2;
          cols = 2;
          rows = 2;
          imageWidth = (maxWidth - margin * (real cols - 1)) / real cols;
          imageHeight = (maxHeight - margin * (real rows - 1)) / real rows;
          st1 = (if imagesOnCurrentPage st = 0
                 then \<lparr>doc = (if i > 0 then addPage (doc st) else doc st),
                       currentPage = currentPage st + 1,
                       imagesOnCurrentPage = 0\<rparr>
                 else st)
      in case processImage env img of
           Inl e \<Rightarrow> st1
         | Inr canvas \<Rightarrow>
             let col = imagesOnCurrentPage st1 mod cols;
                 row = imagesOnCurrentPage st1 div rows;
                 x = margin + real col * (imageWidth + margin);
                 y = margin + real row * (imageHeight + margin)
             in case toDataURL env canvas (getQualityValue settings) of
                  Inl e \<Rightarrow> st1
                | Inr imgData \<Rightarrow>
                    (case addImage env imgData x y imageWidth imageHeight (doc st1) of
                       Inl e \<Rightarrow> st1
                     | Inr pdf2 \<Rightarrow>
                         let captionY = y + imageHeight + 5;
                             pdf3 = (if captionY < height pageDimensions - margin
                                     then drawText (name img) x captionY
                                            (setTextColor 100 100 100 (setFontSize 8 pdf2))
                                     else pdf2);
                             n = imagesOnCurrentPage st1 + 1
                         in st1\<lparr>doc := pdf3,
                                imagesOnCurrentPage := (if n \<ge> cols * rows then 0 else n)\<rparr>))"

fun convertMultiplePerPageFrom ::
  "Raster \<Rightarrow> PDFSettings \<Rightarrow> nat \<Rightarrow> 'a ImageData_scheme list \<Rightarrow> GridState \<Rightarrow> GridState" where
  "convertMultiplePerPageFrom env settings i [] st = st"
| "convertMultiplePerPageFrom env settings i (img # rest) st =
     convertMultiplePerPageFrom env settings (Suc i) rest
       (multiplePerPageStep env settings i img st)"

definition convertMultiplePerPage ::
  "Raster \<Rightarrow> PDFSettings \<Rightarrow> jsPDF \<Rightarrow> 'a ImageData_scheme list \<Rightarrow> jsPDF" where
  "convertMultiplePerPage env settings pdf imgs =
     doc (convertMultiplePerPageFrom env settings 0 imgs
            \<lparr>doc = pdf, currentPage = 0, imagesOnCurrentPage = 0\<rparr>)"

definition convertToPDF ::
  "Raster \<Rightarrow> PDFSettings \<Rightarrow> 'a ImageData_scheme list \<Rightarrow> js_error + Blob" where
  "convertToPDF env settings imgs =
     (if length imgs = 0 then Inl (Error ''No images provided for conversion'')
      else
        let pdf = createPDFDocument settings;
            pdf' = (if layout settings = OnePerPage
                    then convertOnePerPage env settings pdf imgs
                    else convertMultiplePerPage env settings pdf imgs)
        in Inr (outputBlob pdf'))"

section \<open>Notions used to state the properties\<close>

text \<open>The list without the element at an index, and an image without its order field.\<close>

definition removeAt :: "nat \<Rightarrow> 'a list \<Rightarrow> 'a list" where
  "removeAt i xs = take i xs @ drop (Suc i) xs"

definition forgetOrder :: "ImageFile \<Rightarrow> ImageFile" where
  "forgetOrder img = img\<lparr>order := 0\<rparr>"

text \<open>
  The images drawn on a page, the pages of a blob, and the outcome of rasterising one
  image for the document: its canvas and its image data when \<open>processImage\<close>,
  \<open>toDataURL\<close> and \<open>addImage\<close> all succeed on it, and nothing when one of them throws.
\<close>

fun isImage :: "DrawOp \<Rightarrow> bool" where
  "isImage (DrawImage imgData x y w h) = True"
| "isImage (DrawText str x y) = False"

fun imageDataOf :: "DrawOp \<Rightarrow> string" where
  "imageDataOf (DrawImage imgData x y w h) = imgData"
| "imageDataOf (DrawText str x y) = str"

definition imagesOn :: "DrawOp list \<Rightarrow> DrawOp list" where
  "imagesOn page = filter isImage page"

fun blobPages :: "Blob \<Rightarrow> DrawOp list list" where
  "blobPages (PdfBlob ps) = ps"

definition placedImages :: "Blob \<Rightarrow> string list" where
  "placedImages blob = map imageDataOf (concat (map imagesOn (blobPages blob)))"

definition rasterized ::
  "Raster \<Rightarrow> PDFSettings \<Rightarrow> 'a ImageData_scheme \<Rightarrow> (Canvas \<times> string) option" where
  "rasterized env settings img =
     (case processImage env img of
        Inl e \<Rightarrow> None
      | Inr canvas \<Rightarrow>
          (case toDataURL env canvas (getQualityValue settings) of
             Inl e \<Rightarrow> None
           | Inr imgData \<Rightarrow>
               if addImageRejects env imgData then None else Some (canvas, imgData)))"

text \<open>
  The images drawn on each page of a document, page by page; the string that an image
  contributes to the document when it is rasterised and placed, if it is.
\<close>

definition drawn :: "jsPDF \<Rightarrow> DrawOp list list" where
  "drawn pdf = map imagesOn (pages pdf)"

definition placedBy :: "Raster \<Rightarrow> PDFSettings \<Rightarrow> 'a ImageData_scheme \<Rightarrow> string option" where
  "placedBy env settings img = map_option snd (rasterized env settings img)"

text \<open>
  The placement of the one-per-page layout: the image scaled into the content area
  inside the 20 mm margins and centred there.
\<close>

definition centredImage :: "PDFSettings \<Rightarrow> Canvas \<times> string \<Rightarrow> DrawOp" where
  "centredImage settings r =
     (let margin = 20;
          maxWidth = width (getPageDimensions settings) - margin * 2;
          maxHeight = height (getPageDimensions settings) - margin * 2;
          d = scaledSize (width (fst r)) (height (fst r)) maxWidth maxHeight
      in DrawImage (snd r) (margin + (maxWidth - width d) / 2)
           (margin + (maxHeight - height d) / 2) (width d) (height d))"

text \<open>
  The placement of the grid layout for the image at list index \<open>i\<close>: column
  \<open>(i mod 4) mod 2\<close> and row \<open>(i mod 4) div 2\<close> of a 2x2 grid of equal cells, with
  15 mm margins and 15 mm between the cells. \<open>gridSlot\<close> is the same placement by the
  slot on the page, and \<open>gridPages f k\<close> are the pages that hold \<open>f 0, \<dots>, f (k - 1)\<close>,
  four to a page.
\<close>

definition gridImage :: "PDFSettings \<Rightarrow> nat \<Rightarrow> Canvas \<times> string \<Rightarrow> DrawOp" where
  "gridImage settings i r =
     (let margin = 15;
          maxWidth = width (getPageDimensions settings) - margin * 2;
          maxHeight = height (getPageDimensions settings) - margin * 2;
          cellWidth = (maxWidth - margin) / 2;
          cellHeight = (maxHeight - margin) / 2;
          col = (i mod 4) mod 2;
          row = (i mod 4) div 2
      in DrawImage (snd r) (margin + real col * (cellWidth + margin))
           (margin + real row * (cellHeight + margin)) cellWidth cellHeight)"

definition gridSlot :: "PDFSettings \<Rightarrow> nat \<Rightarrow> Canvas \<times> string \<Rightarrow> DrawOp" where
  "gridSlot settings n r =
     DrawImage (snd r)
       (15 + real (n mod 2) * ((width (getPageDimensions settings) - 15 * 2 - 15) / 2 + 15))
       (15 + real (n div 2) * ((height (getPageDimensions settings) - 15 * 2 - 15) / 2 + 15))
       ((width (getPageDimensions settings) - 15 * 2 - 15) / 2)
       ((height (getPageDimensions settings) - 15 * 2 - 15) / 2)"

definition gridPages :: "(nat \<Rightarrow> 'a) \<Rightarrow> nat \<Rightarrow> 'a list list" where
  "gridPages f k =
     map (\<lambda>p. map f [4 * p..<4 * p + 4]) [0..<k div 4]
       @ (if k mod 4 = 0 \<and> 0 < k then [] else [map f [4 * (k div 4)..<k]])"

subsection \<open>Concrete inputs\<close>

definition pngFile :: "string \<Rightarrow> File" where
  "pngFile n = \<lparr>File_name = n, File_type = ''image/png'', File_size = 2048\<rparr>"

definition textFile :: "string \<Rightarrow> File" where
  "textFile n = \<lparr>File_name = n, File_type = ''text/plain'', File_size = 10\<rparr>"

definition plainImage :: "string \<Rightarrow> ImageFile" where
  "plainImage i =
     \<lparr>image_id = i, file_obj = pngFile i, preview = ''blob:'' @ i, name = i,
      dimensions = \<lparr>width = 0, height = 0\<rparr>, rotation = 0, brightness = 0, contrast = 0,
      size_bytes = 2048, uploadTime = 0, order = 0\<rparr>"

definition someBrowser :: Browser where
  "someBrowser =
     \<lparr>randomId = (\<lambda>k. replicate (Suc k) CHR ''x''),
      createObjectURL = (\<lambda>f. ''blob:'' @ File_name f),
      currentTime = (\<lambda>k. 1000)\<rparr>"

definition onePixel :: "8 word \<Rightarrow> 8 word \<Rightarrow> 8 word \<Rightarrow> 8 word \<Rightarrow> Canvas" where
  "onePixel r g b a = \<lparr>width = 1, height = 1, ctx2d = Some [r, g, b, a]\<rparr>"

definition pageWith :: "ImageFile list \<Rightarrow> string option \<Rightarrow> PageState" where
  "pageWith imgs dragged =
     \<lparr>images = imgs, error = None, success = None,
      draggedImage = dragged, dragOverImage = None, sortBy = Custom\<rparr>"

definition someCanvas :: Canvas where
  "someCanvas = \<lparr>width = 100, height = 50, ctx2d = Some []\<rparr>"

text \<open>
  The values of \<open>Math.cos\<close> and \<open>Math.sin\<close> at the angles of the quarter turns,
  \<open>(degrees * Math.PI) / 180\<close> for 90, 180 and 270 degrees: 6.123233995736766e-17 for the
  cosine of the first, 1.2246467991473532e-16 for the sine of the second and
  -1.8369701987210297e-16 for the cosine of the third. Each value differs from the real
  cosine or sine by less than \<open>2 ^ -66\<close>, which is proved below. No other argument is
  used, and NaN stands for the values there.
\<close>

definition quarterTurnCos :: "number \<Rightarrow> number" where
  "quarterTurnCos x =
     (if x = Num (884279719003555 / 2 ^ 49) then Num (4967757600021511 / 2 ^ 106)
      else if x = Num (884279719003555 / 2 ^ 48) then Num (- 1)
      else if x = Num (2652839157010665 / 2 ^ 49) then Num (- (3725818200016133 / 2 ^ 104))
      else NaN)"

definition quarterTurnSin :: "number \<Rightarrow> number" where
  "quarterTurnSin x =
     (if x = Num (884279719003555 / 2 ^ 49) then Num 1
      else if x = Num (884279719003555 / 2 ^ 48) then Num (4967757600021511 / 2 ^ 105)
      else if x = Num (2652839157010665 / 2 ^ 49) then Num (- 1)
      else NaN)"

definition someRaster :: Raster where
  "someRaster =
     \<lparr>imageToCanvas = (\<lambda>url. if prefix ''blob:'' url
                               then Inr someCanvas
                               else Inl (Error ''Failed to load image'')),
      Math_cos = quarterTurnCos,
      Math_sin = quarterTurnSin,
      rotatedContext = (\<lambda>canvas radians newWidth newHeight. Some []),
      toDataURL = (\<lambda>canvas q. Inr ''data:image/jpeg''),
      addImageRejects = (\<lambda>imgData. False)\<rparr>"

definition wideCanvas :: Canvas where
  "wideCanvas = \<lparr>width = 1000, height = 100, ctx2d = Some []\<rparr>"

definition hdCanvas :: Canvas where
  "hdCanvas = \<lparr>width = 1920, height = 1080, ctx2d = Some []\<rparr>"

definition brokenImage :: ImageFile where
  "brokenImage = (plainImage ''z'')\<lparr>preview := ''gone''\<rparr>"

definition a4 :: "Layout \<Rightarrow> PDFSettings" where
  "a4 l = \<lparr>pageSize = A4, orientation = Portrait, quality = High, layout = l\<rparr>"

section \<open>Properties of the rounding to doubles\<close>

lemma roundEven_int [simp]: "roundEven (of_int n) = n"
  by (simp add: roundEven_def)

lemma roundEven_close: "\<bar>of_int (roundEven x) - x\<bar> \<le> 1 / 2"
  unfolding roundEven_def Let_def by (auto simp: abs_if) linarith+

lemma roundEven_le_int: "x \<le> of_int n \<Longrightarrow> roundEven x \<le> n"
proof -
  assume x: "x \<le> of_int n"
  show ?thesis
  proof (cases "x = of_int n")
    case True
    then show ?thesis by simp
  next
    case False
    with x have "x < of_int n" by simp
    then have "\<lfloor>x\<rfloor> < n" by (simp add: floor_less_iff)
    then have "\<lfloor>x\<rfloor> + 1 \<le> n" by simp
    moreover have "roundEven x \<le> \<lfloor>x\<rfloor> + 1"
      by (simp add: roundEven_def Let_def)
    ultimately show ?thesis by linarith
  qed
qed

lemma roundEven_ge_int: "of_int n \<le> x \<Longrightarrow> n \<le> roundEven x"
proof -
  assume "of_int n \<le> x"
  then have "n \<le> \<lfloor>x\<rfloor>" by (simp add: le_floor_iff)
  moreover have "\<lfloor>x\<rfloor> \<le> roundEven x"
    by (simp add: roundEven_def Let_def)
  ultimately show ?thesis by linarith
qed

lemma expo_ge: "- 1022 \<le> expo x"
  by (simp add: expo_def)

lemma ulp_pos: "0 < ulp x"
  by (simp add: ulp_def)

lemma abs_less_expo: "x \<noteq> 0 \<Longrightarrow> \<bar>x\<bar> < 2 powr of_int (expo x + 1)"
proof -
  assume "x \<noteq> 0"
  then have pos: "0 < \<bar>x\<bar>" by simp
  have "log 2 \<bar>x\<bar> < of_int (\<lfloor>log 2 \<bar>x\<bar>\<rfloor> + 1)" by linarith
  also have "\<dots> \<le> of_int (expo x + 1)" by (simp add: expo_def)
  finally have "log 2 \<bar>x\<bar> < of_int (expo x + 1)" .
  then show ?thesis using pos by (simp add: log_less_iff)
qed

lemma expo_normal:
  assumes "2 powr (- 1022) \<le> \<bar>x\<bar>"
  shows "expo x = \<lfloor>log 2 \<bar>x\<bar>\<rfloor>" and "2 powr of_int (expo x) \<le> \<bar>x\<bar>"
proof -
  have pos: "0 < \<bar>x\<bar>" using assms by (smt (verit) powr_gt_zero)
  from assms pos have "- 1022 \<le> log 2 \<bar>x\<bar>" by (simp add: le_log_iff)
  then have "- 1022 \<le> \<lfloor>log 2 \<bar>x\<bar>\<rfloor>" by (simp add: le_floor_iff)
  then show e: "expo x = \<lfloor>log 2 \<bar>x\<bar>\<rfloor>" by (simp add: expo_def)
  show "2 powr of_int (expo x) \<le> \<bar>x\<bar>"
    unfolding e using pos by (subst le_log_iff [symmetric]) simp_all
qed

lemma expo_mono: "x \<noteq> 0 \<Longrightarrow> \<bar>x\<bar> \<le> \<bar>y\<bar> \<Longrightarrow> expo x \<le> expo y"
proof -
  assume "x \<noteq> 0" "\<bar>x\<bar> \<le> \<bar>y\<bar>"
  then have "log 2 \<bar>x\<bar> \<le> log 2 \<bar>y\<bar>" by simp
  then have "\<lfloor>log 2 \<bar>x\<bar>\<rfloor> \<le> \<lfloor>log 2 \<bar>y\<bar>\<rfloor>" by (rule floor_mono)
  then show ?thesis by (simp add: expo_def)
qed

lemma expo_eqI:
  assumes "2 powr of_int e \<le> \<bar>x\<bar>" and "\<bar>x\<bar> < 2 powr of_int (e + 1)" and "- 1022 \<le> e"
  shows "expo x = e"
proof -
  have pos: "0 < \<bar>x\<bar>" using assms(1) by (smt (verit) powr_gt_zero)
  have "\<lfloor>log 2 \<bar>x\<bar>\<rfloor> = e"
    using assms(1,2) pos by (subst floor_log_eq_powr_iff) simp_all
  then show ?thesis using assms(3) by (simp add: expo_def)
qed

lemma roundToDouble_close: "\<bar>roundToDouble x - x\<bar> \<le> ulp x / 2"
proof -
  have "roundToDouble x - x = (of_int (roundEven (x / ulp x)) - x / ulp x) * ulp x"
    using ulp_pos [of x] by (simp add: roundToDouble_def field_simps)
  then have "\<bar>roundToDouble x - x\<bar> = \<bar>of_int (roundEven (x / ulp x)) - x / ulp x\<bar> * ulp x"
    using ulp_pos [of x] by (simp add: abs_mult)
  also have "\<dots> \<le> 1 / 2 * ulp x"
    using roundEven_close [of "x / ulp x"] ulp_pos [of x] by (intro mult_right_mono) simp_all
  finally show ?thesis by simp
qed

lemma roundToDouble_relative:
  assumes "2 powr (- 1022) \<le> \<bar>x\<bar>"
  shows "\<bar>roundToDouble x - x\<bar> \<le> \<bar>x\<bar> / 2 ^ 53"
proof -
  have "ulp x = 2 powr of_int (expo x) * 2 powr (- 52)"
    by (simp add: ulp_def powr_add [symmetric])
  also have "\<dots> \<le> \<bar>x\<bar> * 2 powr (- 52)"
    using expo_normal(2) [OF assms] by (intro mult_right_mono) simp_all
  finally have "ulp x / 2 \<le> \<bar>x\<bar> * 2 powr (- 52) / 2" by simp
  also have "\<dots> = \<bar>x\<bar> / 2 ^ 53"
    by (simp add: powr_minus powr_numeral field_simps)
  finally show ?thesis using roundToDouble_close [of x] by linarith
qed

lemma isDouble_fixed: "isDouble x \<Longrightarrow> roundToDouble x = x"
  by (auto simp: isDouble_def fl_def Let_def split: if_splits)

lemma pow53_ulp: "of_int (2 ^ 53) * ulp x = 2 powr of_int (expo x + 1)"
proof -
  have "real_of_int (expo x + 1) = 53 + of_int (expo x - 52)" by simp
  then have "(2::real) powr of_int (expo x + 1) = 2 powr (53 + of_int (expo x - 52))"
    by (simp only:)
  also have "\<dots> = 2 powr 53 * ulp x" by (simp only: powr_add ulp_def)
  also have "(2::real) powr 53 = of_int (2 ^ 53)" by (simp add: powr_numeral)
  finally show ?thesis by simp
qed

lemma roundToDouble_le_double:
  assumes "0 < x" and "x \<le> y" and "roundToDouble y = y"
  shows "roundToDouble x \<le> y"
proof -
  let ?e = "expo x"
  have x: "x < 2 powr of_int (?e + 1)" using abs_less_expo [of x] assms(1) by simp
  have top: "roundToDouble x \<le> 2 powr of_int (?e + 1)"
  proof -
    have "x / ulp x \<le> 2 powr of_int (?e + 1) / ulp x"
      using x ulp_pos [of x] by (intro divide_right_mono) simp_all
    also have "\<dots> = of_int (2 ^ 53)"
      using ulp_pos [of x] unfolding pow53_ulp [symmetric] by simp
    finally have "roundEven (x / ulp x) \<le> 2 ^ 53" by (rule roundEven_le_int)
    then have "of_int (roundEven (x / ulp x)) * ulp x \<le> of_int (2 ^ 53) * ulp x"
      using ulp_pos [of x] by (intro mult_right_mono) simp_all
    also have "of_int (2 ^ 53) * ulp x = 2 powr of_int (?e + 1)"
      by (rule pow53_ulp)
    finally show ?thesis by (simp add: roundToDouble_def)
  qed
  have le: "?e \<le> expo y" using expo_mono [of x y] assms(1,2) by simp
  show ?thesis
  proof (cases "expo y = ?e")
    case True
    then have u: "ulp y = ulp x" by (simp add: ulp_def)
    from assms(3) have "y / ulp x = of_int (roundEven (y / ulp x))"
      using ulp_pos [of x] by (simp add: roundToDouble_def u field_simps)
    moreover have "x / ulp x \<le> y / ulp x"
      using assms(2) ulp_pos [of x] by (intro divide_right_mono) simp_all
    ultimately have "roundEven (x / ulp x) \<le> roundEven (y / ulp x)"
      by (metis roundEven_le_int)
    then have "of_int (roundEven (x / ulp x)) * ulp x \<le> of_int (roundEven (y / ulp x)) * ulp x"
      using ulp_pos [of x] by (intro mult_right_mono) simp_all
    then show ?thesis using assms(3) by (simp add: roundToDouble_def u)
  next
    case False
    with le have gt: "?e + 1 \<le> expo y" by simp
    with expo_ge [of x] have "expo y \<noteq> - 1022" by linarith
    then have ey: "expo y = \<lfloor>log 2 \<bar>y\<bar>\<rfloor>" by (simp add: expo_def max_def split: if_splits)
    have ypos: "0 < y" using assms(1,2) by simp
    have "2 powr of_int (expo y) \<le> y"
      unfolding ey using ypos by (subst le_log_iff [symmetric]) simp_all
    moreover have "(2::real) powr of_int (?e + 1) \<le> 2 powr of_int (expo y)"
      using gt by (intro powr_mono) simp_all
    ultimately show ?thesis using top by linarith
  qed
qed

lemma roundEven_zero [simp]: "roundEven 0 = 0"
  by (simp add: roundEven_def)

lemma fl_zero: "fl 0 = Num 0"
  by (simp add: fl_def roundToDouble_def Let_def)

lemma fl_scaled:
  assumes "2 ^ 52 \<le> \<bar>x\<bar> * 2 ^ k" and "\<bar>x\<bar> * 2 ^ k < 2 ^ 53" and "k \<le> 1074"
  shows "fl x = Num (of_int (roundEven (x * 2 ^ k)) / 2 ^ k)"
proof -
  define e where "e = 52 - int k"
  have pk: "2 powr real k = (2::real) ^ k"
    by (simp add: powr_realpow)
  have "real_of_int e = 52 - real k"
    by (simp add: e_def)
  then have "(2::real) powr of_int e = 2 powr 52 / 2 powr real k"
    by (simp only: powr_diff)
  also have "\<dots> = 2 ^ 52 / 2 ^ k" by (simp add: pk powr_numeral)
  finally have "2 powr of_int e = (2::real) ^ 52 / 2 ^ k" .
  then have lo: "2 powr of_int e \<le> \<bar>x\<bar>"
    using assms(1) by (simp only: pos_divide_le_eq zero_less_power zero_less_numeral)
  have "real_of_int (e + 1) = 53 - real k"
    by (simp add: e_def)
  then have "(2::real) powr of_int (e + 1) = 2 powr 53 / 2 powr real k"
    by (simp only: powr_diff)
  also have "\<dots> = 2 ^ 53 / 2 ^ k" by (simp add: pk powr_numeral)
  finally have "2 powr of_int (e + 1) = (2::real) ^ 53 / 2 ^ k" .
  then have hi: "\<bar>x\<bar> < 2 powr of_int (e + 1)"
    using assms(2) by (simp only: pos_less_divide_eq zero_less_power zero_less_numeral)
  have "expo x = e"
    using lo hi assms(3) by (intro expo_eqI) (simp_all add: e_def)
  then have "ulp x = 2 powr (- real k)"
    by (simp add: ulp_def e_def)
  then have u: "ulp x = 1 / 2 ^ k"
    unfolding powr_minus pk by (simp add: field_simps)
  have r: "roundToDouble x = of_int (roundEven (x * 2 ^ k)) / 2 ^ k"
    by (simp add: roundToDouble_def u)
  define z where "z = x * 2 ^ k"
  have zabs: "\<bar>z\<bar> = \<bar>x\<bar> * 2 ^ k" by (simp add: z_def abs_mult)
  have "\<bar>of_int (roundEven z) - z\<bar> \<le> 1 / 2"
    by (rule roundEven_close)
  then have "\<bar>real_of_int (roundEven z)\<bar> \<le> \<bar>z\<bar> + 1 / 2"
    by arith
  also have "\<dots> < 2 ^ 54" using assms(2) by (simp add: zabs)
  finally have n: "\<bar>real_of_int (roundEven z)\<bar> < 2 ^ 54" .
  have "\<bar>real_of_int (roundEven z)\<bar> / 2 ^ k \<le> \<bar>real_of_int (roundEven z)\<bar> / 1"
    by (intro divide_left_mono) simp_all
  with n have "\<bar>real_of_int (roundEven (x * 2 ^ k))\<bar> / 2 ^ k < 2 ^ 54"
    by (simp add: z_def)
  then have "\<bar>roundToDouble x\<bar> < 2 ^ 1024"
    unfolding r by (simp add: abs_divide) 
  then show ?thesis
    unfolding fl_def Let_def r by (auto simp: abs_if split: if_splits)
qed

lemma fl_normal:
  assumes "1 / 2 ^ 1000 \<le> \<bar>x\<bar>" and "\<bar>x\<bar> \<le> 2 ^ 1000"
  shows "fl x = Num (roundToDouble x)"
    and "\<bar>roundToDouble x - x\<bar> \<le> \<bar>x\<bar> / 2 ^ 53"
proof -
  have "(2::real) powr (- 1022) = 1 / 2 ^ 1022"
    by (simp only: powr_minus powr_numeral zero_le_numeral inverse_eq_divide)
  also have "\<dots> \<le> 1 / 2 ^ 1000"
    by (intro divide_left_mono power_increasing) simp_all
  finally have n: "2 powr (- 1022) \<le> \<bar>x\<bar>" using assms(1) by linarith
  show r: "\<bar>roundToDouble x - x\<bar> \<le> \<bar>x\<bar> / 2 ^ 53"
    using n by (rule roundToDouble_relative)
  have "\<bar>x\<bar> / 2 ^ 53 \<le> \<bar>x\<bar>"
    by (simp add: field_simps)
  with r have "\<bar>roundToDouble x\<bar> \<le> 2 * \<bar>x\<bar>" by arith
  also have "\<dots> \<le> 2 * 2 ^ 1000" using assms(2) by simp
  also have "\<dots> < (2::real) ^ 1024"
    by (simp only: power_Suc [symmetric]) (intro power_strict_increasing; simp)
  finally have "\<bar>roundToDouble x\<bar> < 2 ^ 1024" .
  then show "fl x = Num (roundToDouble x)"
    unfolding fl_def Let_def by (simp only: abs_less_iff) (simp add: not_le [symmetric])
qed

text \<open>
  Evaluation of a rounding: \<open>fl_scaled\<close> gives the double nearest to \<open>x\<close> once \<open>x\<close> is
  scaled into the range of the 53-bit integers.
\<close>

lemma fl_eval:
  assumes "2 ^ 52 \<le> \<bar>x\<bar> * 2 ^ k" and "\<bar>x\<bar> * 2 ^ k < 2 ^ 53" and "k \<le> 1074"
    and "roundEven (x * 2 ^ k) = n"
  shows "fl x = Num (of_int n / 2 ^ k)"
  using fl_scaled [OF assms(1-3)] assms(4) by simp

text \<open>Integers below \<open>2 ^ 53\<close> in magnitude are doubles.\<close>

lemma scale_ex:
  fixes n :: nat
  assumes "0 < n" and "n < 2 ^ 53"
  shows "\<exists>k\<le>52. 2 ^ 52 \<le> n * 2 ^ k \<and> n * 2 ^ k < 2 ^ 53"
proof -
  define k where "k = (LEAST k. 2 ^ 52 \<le> n * 2 ^ k)"
  have "(2::nat) ^ 52 * 1 \<le> 2 ^ 52 * n" using assms(1) by (intro mult_le_mono) simp_all
  then have ex: "2 ^ 52 \<le> n * 2 ^ 52" by (simp add: mult.commute)
  then have k: "2 ^ 52 \<le> n * 2 ^ k" unfolding k_def by (rule LeastI)
  have k52: "k \<le> 52" unfolding k_def using ex by (rule Least_le)
  have "n * 2 ^ k < 2 ^ 53"
  proof (cases k)
    case 0
    then show ?thesis using assms(2) by simp
  next
    case (Suc j)
    have "\<not> 2 ^ 52 \<le> n * 2 ^ j"
      using not_less_Least [of j "\<lambda>k. 2 ^ 52 \<le> n * 2 ^ k"] Suc by (simp add: k_def)
    then show ?thesis using Suc by simp
  qed
  with k k52 show ?thesis by blast
qed

lemma fl_nat:
  fixes n :: nat
  assumes "n < 2 ^ 53"
  shows "fl (real n) = Num (real n)"
proof (cases "n = 0")
  case True
  then show ?thesis by (simp add: fl_zero)
next
  case False
  then obtain k where k: "k \<le> 52" "2 ^ 52 \<le> n * 2 ^ k" "n * 2 ^ k < 2 ^ 53"
    using scale_ex [of n] assms by auto
  have a: "(2::real) ^ 52 \<le> \<bar>real n\<bar> * 2 ^ k"
  proof -
    have "real (2 ^ 52) \<le> real (n * 2 ^ k)" using k(2) by (simp only: of_nat_le_iff)
    then show ?thesis by simp
  qed
  have b: "\<bar>real n\<bar> * 2 ^ k < 2 ^ 53"
  proof -
    have "real (n * 2 ^ k) < real (2 ^ 53)" using k(3) by (simp only: of_nat_less_iff)
    then show ?thesis by simp
  qed
  have "real n * 2 ^ k = of_int (int n * 2 ^ k)" by simp
  then have "roundEven (real n * 2 ^ k) = int n * 2 ^ k"
    by (simp only: roundEven_int)
  from fl_eval [OF a b _ this] k(1) show ?thesis by simp
qed

lemma fl_neg_nat:
  fixes n :: nat
  assumes "n < 2 ^ 53"
  shows "fl (- real n) = Num (- real n)"
proof (cases "n = 0")
  case True
  then show ?thesis by (simp add: fl_zero)
next
  case False
  then obtain k where k: "k \<le> 52" "2 ^ 52 \<le> n * 2 ^ k" "n * 2 ^ k < 2 ^ 53"
    using scale_ex [of n] assms by auto
  have a: "(2::real) ^ 52 \<le> \<bar>- real n\<bar> * 2 ^ k"
  proof -
    have "real (2 ^ 52) \<le> real (n * 2 ^ k)" using k(2) by (simp only: of_nat_le_iff)
    then show ?thesis by simp
  qed
  have b: "\<bar>- real n\<bar> * 2 ^ k < 2 ^ 53"
  proof -
    have "real (n * 2 ^ k) < real (2 ^ 53)" using k(3) by (simp only: of_nat_less_iff)
    then show ?thesis by simp
  qed
  have "- real n * 2 ^ k = of_int (- (int n * 2 ^ k))" by simp
  then have "roundEven (- real n * 2 ^ k) = - (int n * 2 ^ k)"
    by (simp only: roundEven_int)
  from fl_eval [OF a b _ this] k(1) show ?thesis by simp
qed

section \<open>Properties of the scaling\<close>

lemma ratio_bounds:
  fixes w h :: nat
  assumes "0 < w" "w < 2 ^ 32" "0 < h" "h < 2 ^ 32"
  shows "1 / 2 ^ 32 \<le> real w / real h" and "real w / real h \<le> 2 ^ 32"
proof -
  have h: "real h \<le> 2 ^ 32" "1 \<le> real h" using assms(3,4) by simp_all
  have w: "real w \<le> 2 ^ 32" "1 \<le> real w" using assms(1,2) by simp_all
  have "1 / 2 ^ 32 \<le> 1 / real h"
    using h by (intro divide_left_mono) simp_all
  also have "\<dots> \<le> real w / real h"
    using w h by (intro divide_right_mono) simp_all
  finally show "1 / 2 ^ 32 \<le> real w / real h" .
  have "real w / real h \<le> real w / 1"
    using w h by (intro divide_left_mono) simp_all
  then show "real w / real h \<le> 2 ^ 32" using w by simp
qed

lemma near:
  fixes a b :: real
  assumes "\<bar>a - b\<bar> \<le> b / 2 ^ 53" and "0 < b"
  shows "b / 2 \<le> a" and "a \<le> 2 * b" and "0 < a"
proof -
  have "b / 2 ^ 53 \<le> b / 2 ^ 1"
    using assms(2) by (intro divide_left_mono power_increasing) simp_all
  then have "\<bar>a - b\<bar> \<le> b / 2" using assms(1) by simp
  then show "b / 2 \<le> a" and "a \<le> 2 * b" and "0 < a"
    using assms(2) by arith+
qed

lemma ratio_mul:
  fixes q ar H r :: real
  assumes "0 < q" and "\<bar>ar - q\<bar> \<le> q / 2 ^ 53" and "0 < H"
    and "\<bar>r - H * ar\<bar> \<le> H * ar / 2 ^ 53"
  shows "\<bar>r / H - q\<bar> \<le> q / 2 ^ 51"
proof -
  define u :: real where "u = 1 / 2 ^ 53"
  have u: "0 \<le> u" "4 * u = 1 / 2 ^ 51" by (simp_all add: u_def)
  have a1: "\<bar>ar - q\<bar> \<le> q * u" using assms(2) by (simp add: u_def)
  have ar: "ar \<le> 2 * q" "0 < ar" using near [OF assms(2,1)] by simp_all
  have "r / H - ar = (r - H * ar) / H" using assms(3) by (simp add: field_simps)
  then have "\<bar>r / H - ar\<bar> = \<bar>r - H * ar\<bar> / H"
    using assms(3) by (simp add: abs_divide)
  also have "\<dots> \<le> (H * ar / 2 ^ 53) / H"
    using assms(3,4) by (intro divide_right_mono) simp_all
  also have "\<dots> = ar * u" using assms(3) by (simp add: u_def)
  also have "\<dots> \<le> (2 * q) * u" using ar(1) u(1) by (rule mult_right_mono)
  finally have a2: "\<bar>r / H - ar\<bar> \<le> 2 * (q * u)" by simp
  have "\<bar>r / H - q\<bar> \<le> \<bar>r / H - ar\<bar> + \<bar>ar - q\<bar>" by arith
  also have "\<dots> \<le> 3 * (q * u)" using a1 a2 by linarith
  also have "\<dots> \<le> 4 * (q * u)" using assms(1) u(1) by simp
  also have "\<dots> = q * (4 * u)" by simp
  finally show ?thesis unfolding u(2) by simp
qed

lemma ratio_div:
  fixes q ar W s :: real
  assumes "0 < q" and "\<bar>ar - q\<bar> \<le> q / 2 ^ 53" and "0 < W"
    and "\<bar>s - W / ar\<bar> \<le> (W / ar) / 2 ^ 53"
  shows "\<bar>W / s - q\<bar> \<le> q / 2 ^ 51"
proof -
  define u :: real where "u = 1 / 2 ^ 53"
  define t where "t = W / ar"
  have u: "0 \<le> u" "4 * u = 1 / 2 ^ 51" by (simp_all add: u_def)
  have a1: "\<bar>ar - q\<bar> \<le> q * u" using assms(2) by (simp add: u_def)
  have ar: "0 < ar" using near [OF assms(2,1)] by simp
  have t: "0 < t" using assms(3) ar by (simp add: t_def)
  have a2: "\<bar>s - t\<bar> \<le> t * u" using assms(4) by (simp add: u_def t_def)
  have s: "t / 2 \<le> s" "0 < s"
    using near [OF assms(4) [folded t_def] t] by simp_all
  have W: "W = t * ar" using ar by (simp add: t_def)
  have "W - q * s = t * (ar - q) + q * (t - s)" by (simp add: W algebra_simps)
  then have "\<bar>W - q * s\<bar> \<le> \<bar>t * (ar - q)\<bar> + \<bar>q * (t - s)\<bar>" by arith
  also have "\<bar>t * (ar - q)\<bar> = t * \<bar>ar - q\<bar>" using t by (simp add: abs_mult)
  also have "\<bar>q * (t - s)\<bar> = q * \<bar>s - t\<bar>" using assms(1) by (simp add: abs_mult abs_minus_commute)
  also have "t * \<bar>ar - q\<bar> + q * \<bar>s - t\<bar> \<le> t * (q * u) + q * (t * u)"
    using a1 a2 t assms(1) by (intro add_mono mult_left_mono) simp_all
  also have "\<dots> = (t / 2) * (q * (4 * u))" by simp
  finally have num: "\<bar>W - q * s\<bar> \<le> (t / 2) * (q * (4 * u))" .
  have "W / s - q = (W - q * s) / s" using s(2) by (simp add: field_simps)
  then have "\<bar>W / s - q\<bar> = \<bar>W - q * s\<bar> / s" using s(2) by (simp add: abs_divide)
  also have "\<dots> \<le> ((t / 2) * (q * (4 * u))) / s"
    using num s(2) by (intro divide_right_mono) simp_all
  also have "\<dots> \<le> ((t / 2) * (q * (4 * u))) / (t / 2)"
    using s t assms(1) u(1) by (intro divide_left_mono) simp_all
  also have "\<dots> = q * (4 * u)" using t by simp
  finally show ?thesis unfolding u(2) by simp
qed

lemma range_div:
  fixes a b :: real
  assumes "1 / 2 ^ 500 \<le> a" "a \<le> 2 ^ 500" "1 / 2 ^ 33 \<le> b" "b \<le> 2 ^ 33"
  shows "1 / 2 ^ 1000 \<le> \<bar>a / b\<bar>" and "\<bar>a / b\<bar> \<le> 2 ^ 1000"
proof -
  have a: "0 < a" using assms(1) by (smt (verit) divide_pos_pos zero_less_power zero_less_numeral)
  have b: "0 < b" using assms(3) by (smt (verit) divide_pos_pos zero_less_power zero_less_numeral)
  have "(1 / 2 ^ 500) / 2 ^ 33 \<le> a / b"
    using assms(1,4) b by (intro frac_le) simp_all
  moreover have "(1::real) / 2 ^ 1000 \<le> (1 / 2 ^ 500) / 2 ^ 33"
    unfolding divide_divide_eq_left power_add [symmetric]
    by (intro divide_left_mono power_increasing) simp_all
  ultimately show "1 / 2 ^ 1000 \<le> \<bar>a / b\<bar>" using a b by simp
  have "a / b \<le> 2 ^ 500 / (1 / 2 ^ 33)"
    using assms(2,3) a by (intro frac_le) simp_all
  moreover have "(2::real) ^ 500 / (1 / 2 ^ 33) \<le> 2 ^ 1000"
    unfolding divide_divide_eq_right mult_1 power_add [symmetric] times_divide_eq_left
    by (simp only: div_by_1 power_add [symmetric]) (intro power_increasing; simp)
  ultimately show "\<bar>a / b\<bar> \<le> 2 ^ 1000" using a b by simp
qed

lemma range_mul:
  fixes a b :: real
  assumes "1 / 2 ^ 500 \<le> a" "a \<le> 2 ^ 500" "1 / 2 ^ 33 \<le> b" "b \<le> 2 ^ 33"
  shows "1 / 2 ^ 1000 \<le> \<bar>a * b\<bar>" and "\<bar>a * b\<bar> \<le> 2 ^ 1000"
proof -
  have b: "0 < b" using assms(3) by (smt (verit) divide_pos_pos zero_less_power zero_less_numeral)
  have "1 / b \<le> 1 / (1 / 2 ^ 33)" using assms(3) by (intro divide_left_mono) simp_all
  then have ib: "1 / b \<le> 2 ^ 33" by simp
  have "1 / 2 ^ 33 \<le> 1 / b" using assms(4) b by (intro divide_left_mono) simp_all
  with range_div [OF assms(1,2) this ib] show "1 / 2 ^ 1000 \<le> \<bar>a * b\<bar>" and "\<bar>a * b\<bar> \<le> 2 ^ 1000"
    by simp_all
qed

lemma fl_6_5: "fl (6 / 5) = Num (5404319552844595 / 2 ^ 52)"
  using fl_scaled [of "6 / 5" 52] by (simp add: roundEven_def)

lemma fl_170_ar: "fl (170 / (5404319552844595 / 2 ^ 52)) = Num (2492226356292267 / 2 ^ 44)"
  using fl_scaled [of "170 / (5404319552844595 / 2 ^ 52)" 45] by (simp add: roundEven_def)

lemma cid_6_5:
  "calculateImageDimensions (Num 6) (Num 5) (Num 170) (Num 257)
   = \<lparr>width = Num 170, height = Num (2492226356292267 / 2 ^ 44)\<rparr>"
  using fl_6_5 fl_170_ar by (simp add: calculateImageDimensions_def Let_def)

lemma isDouble_170: "isDouble 170"
  using fl_scaled [of 170 45] by (simp add: isDouble_def roundEven_def)

lemma isDouble_257: "isDouble 257"
  using fl_scaled [of 257 44] by (simp add: isDouble_def roundEven_def)

text \<open>
  Claim C1, as the code has it. For pixel dimensions from 1 to \<open>2 ^ 32 - 1\<close> and a
  content area whose sides are doubles between \<open>2 ^ -500\<close> and \<open>2 ^ 500\<close>,
  \<open>calculateImageDimensions\<close> returns a width in \<open>(0, maxWidth]\<close> and a height in
  \<open>(0, maxHeight]\<close>, one of which is the maximum, and the ratio of width to height is
  the ratio of the pixel dimensions up to a relative error of \<open>2 ^ -51\<close>: the quotient
  and the product of the function are each rounded to a double.
\<close>

theorem calculateImageDimensions_fits:
  fixes imgWidth imgHeight :: nat and maxWidth maxHeight :: real
  assumes px: "0 < imgWidth" "imgWidth < 2 ^ 32" "0 < imgHeight" "imgHeight < 2 ^ 32"
    and mw: "isDouble maxWidth" "1 / 2 ^ 500 \<le> maxWidth" "maxWidth \<le> 2 ^ 500"
    and mh: "isDouble maxHeight" "1 / 2 ^ 500 \<le> maxHeight" "maxHeight \<le> 2 ^ 500"
  shows "\<exists>w h. calculateImageDimensions (Num (real imgWidth)) (Num (real imgHeight))
                  (Num maxWidth) (Num maxHeight) = \<lparr>width = Num w, height = Num h\<rparr>
           \<and> 0 < w \<and> w \<le> maxWidth \<and> 0 < h \<and> h \<le> maxHeight
           \<and> (w = maxWidth \<or> h = maxHeight)
           \<and> \<bar>w / h - real imgWidth / real imgHeight\<bar>
               \<le> (real imgWidth / real imgHeight) / 2 ^ 51"
proof -
  define q where "q = real imgWidth / real imgHeight"
  define ar where "ar = roundToDouble q"
  define t where "t = maxWidth / ar"
  define s where "s = roundToDouble t"
  define p where "p = maxHeight * ar"
  define r where "r = roundToDouble p"
  have W: "0 < maxWidth" and H: "0 < maxHeight"
    using mw(2) mh(2) by (smt (verit) divide_pos_pos zero_less_power zero_less_numeral)+
  have q: "1 / 2 ^ 32 \<le> q" "q \<le> 2 ^ 32"
    unfolding q_def using px by (rule ratio_bounds)+
  have qpos: "0 < q" using q(1) by (smt (verit) divide_pos_pos zero_less_power zero_less_numeral)
  have "1 / 2 ^ 1000 \<le> (1::real) / 2 ^ 32"
    by (intro divide_left_mono power_increasing) simp_all
  moreover have "(2::real) ^ 32 \<le> 2 ^ 1000"
    by (intro power_increasing) simp_all
  ultimately have qn: "1 / 2 ^ 1000 \<le> \<bar>q\<bar>" "\<bar>q\<bar> \<le> 2 ^ 1000"
    using q qpos by simp_all
  from fl_normal [OF qn] have flq: "fl q = Num ar" and arq: "\<bar>ar - q\<bar> \<le> q / 2 ^ 53"
    using qpos by (simp_all add: ar_def)
  note ar = near [OF arq qpos]
  have ar33: "1 / 2 ^ 33 \<le> ar" "ar \<le> 2 ^ 33"
    using ar(1,2) q by simp_all
  have aspect: "js_div (Num (real imgWidth)) (Num (real imgHeight)) = Num ar"
    using px(3) flq by (simp add: q_def)
  have tpos: "0 < t" using W ar(3) by (simp add: t_def)
  from fl_normal [OF range_div [OF mw(2,3) ar33]]
  have flt: "fl t = Num s" and st: "\<bar>s - t\<bar> \<le> t / 2 ^ 53"
    using tpos by (simp_all add: t_def s_def)
  note s = near [OF st tpos]
  have height0: "js_div (Num maxWidth) (Num ar) = Num s"
    using ar(3) flt by (simp add: t_def)
  show ?thesis
  proof (cases "maxHeight < s")
    case True
    have "maxHeight < t"
    proof (rule ccontr)
      assume "\<not> maxHeight < t"
      then have "t \<le> maxHeight" by simp
      from roundToDouble_le_double [OF tpos this isDouble_fixed [OF mh(1)]] True
      show False by (simp add: s_def)
    qed
    then have "p < maxWidth"
      using ar(3) by (simp add: t_def p_def pos_less_divide_eq)
    have ppos: "0 < p" using H ar(3) by (simp add: p_def)
    from fl_normal [OF range_mul [OF mh(2,3) ar33]]
    have flp: "fl p = Num r" and rp: "\<bar>r - p\<bar> \<le> p / 2 ^ 53"
      using ppos by (simp_all add: p_def r_def)
    note r = near [OF rp ppos]
    have rW: "r \<le> maxWidth"
      unfolding r_def using \<open>p < maxWidth\<close>
      by (intro roundToDouble_le_double [OF ppos _ isDouble_fixed [OF mw(1)]]) simp
    have res: "calculateImageDimensions (Num (real imgWidth)) (Num (real imgHeight))
                  (Num maxWidth) (Num maxHeight) = \<lparr>width = Num r, height = Num maxHeight\<rparr>"
      unfolding calculateImageDimensions_def Let_def aspect height0
      using True flp by (simp add: p_def)
    have "\<bar>r / maxHeight - q\<bar> \<le> q / 2 ^ 51"
      using rp by (intro ratio_mul [OF qpos arq H]) (simp add: p_def)
    with res r(3) rW H show ?thesis
      unfolding q_def by (intro exI [of _ r] exI [of _ maxHeight]) simp
  next
    case False
    then have res: "calculateImageDimensions (Num (real imgWidth)) (Num (real imgHeight))
                  (Num maxWidth) (Num maxHeight) = \<lparr>width = Num maxWidth, height = Num s\<rparr>"
      unfolding calculateImageDimensions_def Let_def aspect height0 by simp
    have "\<bar>maxWidth / s - q\<bar> \<le> q / 2 ^ 51"
      using st by (intro ratio_div [OF qpos arq W]) (simp add: t_def)
    with res s(3) False W show ?thesis
      unfolding q_def by (intro exI [of _ maxWidth] exI [of _ s]) simp
  qed
qed

theorem calculateImageDimensions_fits_witness:
  "(0::nat) < 6 \<and> (6::nat) < 2 ^ 32 \<and> (0::nat) < 5 \<and> (5::nat) < 2 ^ 32
   \<and> isDouble 170 \<and> 1 / 2 ^ 500 \<le> (170::real) \<and> (170::real) \<le> 2 ^ 500
   \<and> isDouble 257 \<and> 1 / 2 ^ 500 \<le> (257::real) \<and> (257::real) \<le> 2 ^ 500
   \<and> calculateImageDimensions (Num 6) (Num 5) (Num 170) (Num 257)
       = \<lparr>width = Num 170, height = Num (2492226356292267 / 2 ^ 44)\<rparr>
   \<and> \<bar>170 / (2492226356292267 / 2 ^ 44) - 6 / 5\<bar> \<le> ((6::real) / 5) / 2 ^ 51"
proof -
  have r1: "1 / 2 ^ 500 \<le> (170::real)" "1 / 2 ^ 500 \<le> (257::real)"
    by (simp_all add: field_simps) 
  have "(257::real) \<le> 2 ^ 9" by simp
  also have "\<dots> \<le> 2 ^ 500" by (intro power_increasing) simp_all
  finally have r2: "(257::real) \<le> 2 ^ 500" "(170::real) \<le> 2 ^ 500" by simp_all
  from calculateImageDimensions_fits [of 6 5 170 257, OF _ _ _ _ isDouble_170 r1(1) r2(2)
      isDouble_257 r1(2) r2(1)]
  obtain w h where
    "calculateImageDimensions (Num (real (6::nat))) (Num (real (5::nat))) (Num 170) (Num 257)
       = \<lparr>width = Num w, height = Num h\<rparr>"
    and b: "\<bar>w / h - real (6::nat) / real (5::nat)\<bar> \<le> (real (6::nat) / real (5::nat)) / 2 ^ 51"
    by auto
  then have "w = 170" "h = 2492226356292267 / 2 ^ 44"
    by (simp_all add: cid_6_5)
  with b have "\<bar>170 / (2492226356292267 / 2 ^ 44) - 6 / 5\<bar> \<le> ((6::real) / 5) / 2 ^ 51"
    by simp
  with cid_6_5 isDouble_170 isDouble_257 r1 r2 show ?thesis by simp
qed

text \<open>
  Claim C1 as it is stated has the ratio kept exactly. In doubles an image of 6 by 5
  pixels in the content area of an A4 page, 170 by 257, gets the height
  141.66666666666669, and 170 divided by that is not 6/5.
\<close>

theorem calculateImageDimensions_ratio_rounded:
  "calculateImageDimensions (Num 6) (Num 5) (Num 170) (Num 257)
     = \<lparr>width = Num 170, height = Num (2492226356292267 / 2 ^ 44)\<rparr>
   \<and> (170::real) / (2492226356292267 / 2 ^ 44) \<noteq> 6 / 5"
  using cid_6_5 by simp

text \<open>
  An image without width in a positive content area, an image of 0 by 0, and the size
  on an A4 page of a canvas of 100 by 50 pixels.
\<close>

lemma calculateImageDimensions_zero_width:
  "calculateImageDimensions (Num 0) (Num 5) (Num 170) (Num 257)
   = \<lparr>width = Num 0, height = Num 257\<rparr>"
  by (simp add: calculateImageDimensions_def Let_def fl_zero)

lemma calculateImageDimensions_zero_zero:
  "calculateImageDimensions (Num 0) (Num 0) (Num 170) (Num 257)
   = \<lparr>width = Num 170, height = NaN\<rparr>"
  by (simp add: calculateImageDimensions_def Let_def fl_zero)


section \<open>Properties of the rotation of an image record\<close>

lemma rotateImage_nonneg:
  "0 \<le> rotation img + d \<Longrightarrow>
   rotateImage img d = img\<lparr>rotation := (rotation img + d) mod 360\<rparr>"
  by (simp add: rotateImage_def js_rem_def sgn_if)

lemma rotateImage_neg:
  "rotation img + d < 0 \<Longrightarrow>
   rotateImage img d = img\<lparr>rotation := - ((- (rotation img + d)) mod 360)\<rparr>"
  by (simp add: rotateImage_def js_rem_def sgn_if)

text \<open>
  Claim C9 says that a rotation stays in \<open>[0, 360)\<close> under every increment, the
  increment \<open>-90\<close> of the rotate-left control included. The remainder of JavaScript
  keeps the sign of the dividend: rotating an unrotated image by \<open>-90\<close> stores \<open>-90\<close>,
  in \<open>rotateImage\<close> and in the handler of the page alike, where the claim and the
  comment on the field (0, 90, 180, 270) want 270.
\<close>

theorem rotateImage_left_of_zero:
  "rotation (rotateImage (plainImage ''a'') (- 90)) = - 90
   \<and> map rotation (rotateImageHandler [plainImage ''a''] ''a'' (- 90)) = [- 90]
   \<and> (0 + (- 90)) mod 360 = (270::int)"
  by (simp add: rotateImage_def rotateImageHandler_def js_rem_def plainImage_def)

section \<open>Properties of the upload\<close>

lemma validImage_newImage:
  "fileError f = None \<Longrightarrow> validImage (newImage env n (i, f))"
  by (auto simp: fileError_def validImage_def newImage_def split: if_splits)

lemma validImage_newImages:
  "\<forall>f\<in>set vs. fileError f = None \<Longrightarrow>
   list_all validImage (map (newImage env n) (enumerate k vs))"
  by (induction vs arbitrary: k) (simp_all add: validImage_newImage)

lemma imageLoaded_invariant:
  "sessionInvariant (images st) \<Longrightarrow> sessionInvariant (images (imageLoaded st i w h))"
  by (auto simp: sessionInvariant_def imageLoaded_def validImage_def list_all_iff)

text \<open>
  Claim C7. \<open>handleFileSelect\<close> preserves the session invariant (every stored image
  has a MIME type that begins with \<open>image/\<close> and at most 10 MiB, and there are at most
  50 images), and a batch whose file count would bring the total past 50 leaves the image
  list as it was.
\<close>

theorem handleFileSelect_invariant:
  assumes "sessionInvariant (images st)"
  shows "sessionInvariant (images (handleFileSelect env st files))
         \<and> (files = Some fs \<and> 50 < length (images st) + length fs
              \<longrightarrow> images (handleFileSelect env st files) = images st)"
proof (cases files)
  case None
  then show ?thesis using assms by (simp add: handleFileSelect_def)
next
  case (Some gs)
  show ?thesis
  proof (cases "length (images st) + length gs > 50")
    case True
    then show ?thesis using assms Some by (simp add: handleFileSelect_def)
  next
    case False
    have "length (filter (\<lambda>f. fileError f = None) gs) \<le> length gs"
      by (rule length_filter_le)
    with False
    have len: "length (images st) + length (filter (\<lambda>f. fileError f = None) gs) \<le> 50"
      by linarith
    have new: "list_all validImage
        (map (newImage env n) (enumerate 0 (filter (\<lambda>f. fileError f = None) gs)))" for n
      by (rule validImage_newImages) simp
    show ?thesis
      using assms Some False len new
      by (auto simp: handleFileSelect_def Let_def sessionInvariant_def)
  qed
qed

theorem handleFileSelect_invariant_witness:
  "sessionInvariant (images (pageWith [plainImage ''a''] None))
   \<and> sessionInvariant (images (handleFileSelect someBrowser (pageWith [plainImage ''a''] None)
        (Some [pngFile ''p.png'', textFile ''notes.txt''])))
   \<and> map name (images (handleFileSelect someBrowser (pageWith [plainImage ''a''] None)
        (Some [pngFile ''p.png'', textFile ''notes.txt'']))) = [''a'', ''p.png'']
   \<and> images (handleFileSelect someBrowser (pageWith [plainImage ''a''] None)
        (Some (replicate 50 (pngFile ''p.png'')))) = [plainImage ''a'']"
proof -
  have inv: "sessionInvariant (images (pageWith [plainImage ''a''] None))"
    by (simp add: sessionInvariant_def validImage_def pageWith_def plainImage_def pngFile_def)
  have a: "sessionInvariant (images (handleFileSelect someBrowser
      (pageWith [plainImage ''a''] None) (Some [pngFile ''p.png'', textFile ''notes.txt''])))"
    using handleFileSelect_invariant [OF inv] by simp
  have b: "map name (images (handleFileSelect someBrowser (pageWith [plainImage ''a''] None)
        (Some [pngFile ''p.png'', textFile ''notes.txt'']))) = [''a'', ''p.png'']"
    by (simp add: handleFileSelect_def Let_def fileError_def pageWith_def plainImage_def
        pngFile_def textFile_def newImage_def List.map_filter_def)
  have c: "images (handleFileSelect someBrowser (pageWith [plainImage ''a''] None)
        (Some (replicate 50 (pngFile ''p.png'')))) = [plainImage ''a'']"
    using handleFileSelect_invariant [OF inv, where env = someBrowser
        and files = "Some (replicate 50 (pngFile ''p.png''))"
        and fs = "replicate 50 (pngFile ''p.png'')"]
    by (simp add: pageWith_def)
  from inv a b c show ?thesis by simp
qed

section \<open>Properties of the reordering\<close>

lemma findIndex_found:
  "\<exists>x\<in>set xs. P x \<Longrightarrow>
   \<exists>i. findIndex P xs = int i \<and> i < length xs \<and> P (xs ! i) \<and> find P xs = Some (xs ! i)"
proof (induction xs)
  case Nil
  then show ?case by simp
next
  case (Cons x xs)
  show ?case
  proof (cases "P x")
    case True
    then show ?thesis by (intro exI [of _ 0]) simp
  next
    case False
    with Cons.prems have "\<exists>x\<in>set xs. P x" by simp
    from Cons.IH [OF this] obtain i where
      i: "findIndex P xs = int i" "i < length xs" "P (xs ! i)" "find P xs = Some (xs ! i)"
      by blast
    with False show ?thesis by (intro exI [of _ "Suc i"]) (simp add: Let_def)
  qed
qed

lemma splice_remove: "i < length xs \<Longrightarrow> splice_js xs (int i) (Suc 0) [] = removeAt i xs"
  by (simp add: splice_js_def removeAt_def Let_def min_def)

lemma splice_insert:
  "j \<le> length ys \<Longrightarrow> splice_js ys (int j) 0 [x] = take j ys @ x # drop j ys"
  by (simp add: splice_js_def Let_def min_def)

lemma map_order_enumerate:
  "map order (map (\<lambda>(index, img). img\<lparr>order := index\<rparr>) (enumerate k xs))
   = [k..<k + length xs]"
  by (induction xs arbitrary: k) (simp_all add: upt_rec)

lemma map_forget_enumerate:
  "map forgetOrder (map (\<lambda>(index, img). img\<lparr>order := index\<rparr>) (enumerate k xs))
   = map forgetOrder xs"
  by (induction xs arbitrary: k) (simp_all add: forgetOrder_def)

lemma removeAt_map: "removeAt i (map f xs) = map f (removeAt i xs)"
  by (simp add: removeAt_def take_map drop_map)

lemma removeAt_insert: "j \<le> length ys \<Longrightarrow> removeAt j (take j ys @ x # drop j ys) = ys"
  by (simp add: removeAt_def)

lemma nth_insert: "j \<le> length ys \<Longrightarrow> (take j ys @ x # drop j ys) ! j = x"
  by (simp add: nth_append)

lemma mset_removeAt: "i < length xs \<Longrightarrow> mset (removeAt i xs) + {#xs ! i#} = mset xs"
proof -
  assume "i < length xs"
  then have "xs = take i xs @ xs ! i # drop (Suc i) xs"
    by (simp add: id_take_nth_drop [symmetric])
  then have "mset xs = mset (take i xs @ xs ! i # drop (Suc i) xs)" by simp
  then show ?thesis by (simp add: removeAt_def)
qed

lemma image_id_plainImage: "image_id (plainImage i) = i"
  by (simp add: plainImage_def)

lemma reorder_eq:
  assumes i: "findIndex (\<lambda>img. image_id img = d) prev = int i" "i < length prev"
             "find (\<lambda>img. image_id img = d) prev = Some (prev ! i)"
      and j: "findIndex (\<lambda>img. image_id img = t) prev = int j" "j < length prev"
             "find (\<lambda>img. image_id img = t) prev = Some (prev ! j)"
  shows "reorder prev d t =
         map (\<lambda>(index, img). img\<lparr>order := index\<rparr>)
           (enumerate 0 (take j (removeAt i prev) @ prev ! i # drop j (removeAt i prev)))"
proof -
  have len: "length (removeAt i prev) = length prev - 1"
    using i(2) by (simp add: removeAt_def)
  then have "j \<le> length (removeAt i prev)" using j(2) by simp
  then show ?thesis
    using i j by (simp add: reorder_def Let_def splice_remove splice_insert)
qed

text \<open>
  What the handler does once its guard lets a drop through. Let \<open>d\<close> be the dragged
  identifier, not the empty string, and \<open>t\<close> another identifier, both borne by images
  of the list; let \<open>i\<close> and \<open>j\<close> be the indices of the first image with identifier \<open>d\<close>
  and of the first image with identifier \<open>t\<close> (the images that \<open>find\<close> and
  \<open>findIndex\<close> select; identifiers are meant to be unique, and then these are the
  dragged image and the target). The new list is a permutation of the old one (the
  order fields apart) in which the image of index \<open>i\<close> stands at index \<open>j\<close>, the other
  images keep their relative order, and the order fields are \<open>0, \<dots>, n - 1\<close> in list
  order.
\<close>

lemma handleImageDrop_moves_dragged:
  assumes drag: "draggedImage st = Some d" "d \<noteq> []" "d \<noteq> t"
      and present: "d \<in> image_id ` set (images st)" "t \<in> image_id ` set (images st)"
  defines "i \<equiv> nat (findIndex (\<lambda>img. image_id img = d) (images st))"
      and "j \<equiv> nat (findIndex (\<lambda>img. image_id img = t) (images st))"
      and "new \<equiv> images (handleImageDrop st t)"
  shows "i < length (images st) \<and> image_id (images st ! i) = d
         \<and> j < length (images st) \<and> image_id (images st ! j) = t
         \<and> mset (map forgetOrder new) = mset (map forgetOrder (images st))
         \<and> forgetOrder (new ! j) = forgetOrder (images st ! i)
         \<and> map forgetOrder (removeAt j new) = map forgetOrder (removeAt i (images st))
         \<and> map order new = [0..<length new]"
proof -
  let ?prev = "images st"
  from present(1) have "\<exists>x\<in>set ?prev. image_id x = d" by auto
  from findIndex_found [OF this] obtain i' where
    i': "findIndex (\<lambda>img. image_id img = d) ?prev = int i'" "i' < length ?prev"
        "image_id (?prev ! i') = d" "find (\<lambda>img. image_id img = d) ?prev = Some (?prev ! i')"
    by blast
  from present(2) have "\<exists>x\<in>set ?prev. image_id x = t" by auto
  from findIndex_found [OF this] obtain j' where
    j': "findIndex (\<lambda>img. image_id img = t) ?prev = int j'" "j' < length ?prev"
        "image_id (?prev ! j') = t" "find (\<lambda>img. image_id img = t) ?prev = Some (?prev ! j')"
    by blast
  have ii: "i = i'" and jj: "j = j'" by (simp_all add: i_def j_def i' j')
  let ?ys = "removeAt i ?prev"
  let ?zs = "take j ?ys @ ?prev ! i # drop j ?ys"
  have len: "length ?ys = length ?prev - 1"
    using i'(2) by (simp add: removeAt_def ii)
  then have jle: "j \<le> length ?ys" using j'(2) by (simp add: jj)
  have "new = reorder ?prev d t"
    unfolding new_def using drag by (simp add: handleImageDrop_def)
  also have "\<dots> = map (\<lambda>(index, img). img\<lparr>order := index\<rparr>) (enumerate 0 ?zs)"
    unfolding ii jj by (rule reorder_eq [OF i'(1,2,4) j'(1,2,4)])
  finally have new: "new = map (\<lambda>(index, img). img\<lparr>order := index\<rparr>) (enumerate 0 ?zs)" .
  have forget: "map forgetOrder new = map forgetOrder ?zs"
    unfolding new by (rule map_forget_enumerate)
  have jnew: "j < length new"
    unfolding new using jle by simp
  have p1: "mset (map forgetOrder new) = mset (map forgetOrder ?prev)"
  proof -
    have "mset ?zs = add_mset (?prev ! i) (mset (take j ?ys @ drop j ?ys))"
      by (simp only: mset_append mset.simps union_mset_add_mset_right)
    also have "take j ?ys @ drop j ?ys = ?ys"
      by (rule append_take_drop_id)
    also have "add_mset (?prev ! i) (mset ?ys) = mset ?prev"
      using mset_removeAt [OF i'(2)] by (simp add: ii)
    finally show ?thesis
      unfolding forget by (simp only: mset_map)
  qed
  have p2: "forgetOrder (new ! j) = forgetOrder (?prev ! i)"
  proof -
    have "forgetOrder (new ! j) = map forgetOrder new ! j"
      using jnew by simp
    also have "\<dots> = forgetOrder (?zs ! j)"
      unfolding forget using jle by (intro nth_map) simp
    also have "?zs ! j = ?prev ! i"
      using jle by (rule nth_insert)
    finally show ?thesis .
  qed
  have p3: "map forgetOrder (removeAt j new) = map forgetOrder (removeAt i ?prev)"
  proof -
    have "map forgetOrder (removeAt j new) = removeAt j (map forgetOrder new)"
      by (simp only: removeAt_map)
    also have "\<dots> = map forgetOrder (removeAt j ?zs)"
      unfolding forget by (simp only: removeAt_map)
    also have "removeAt j ?zs = ?ys"
      using jle by (rule removeAt_insert)
    finally show ?thesis .
  qed
  have p4: "map order new = [0..<length new]"
    unfolding new using map_order_enumerate [of 0 ?zs] by simp
  show ?thesis
    using i'(2,3) j'(2,3) p1 p2 p3 p4 by (simp add: ii jj)
qed

lemma handleImageDrop_moves_dragged_example:
  "draggedImage (pageWith [plainImage ''a'', plainImage ''b'', plainImage ''c''] (Some ''a''))
     = Some ''a''
   \<and> ''a'' \<noteq> [] \<and> ''a'' \<noteq> ''c''
   \<and> map image_id (images (handleImageDrop
        (pageWith [plainImage ''a'', plainImage ''b'', plainImage ''c''] (Some ''a'')) ''c''))
      = [''b'', ''c'', ''a'']
   \<and> map order (images (handleImageDrop
        (pageWith [plainImage ''a'', plainImage ''b'', plainImage ''c''] (Some ''a'')) ''c''))
      = [0, 1, 2]"
proof -
  let ?prev = "[plainImage ''a'', plainImage ''b'', plainImage ''c'']"
  let ?st = "pageWith ?prev (Some ''a'')"
  have i: "findIndex (\<lambda>img. image_id img = ''a'') ?prev = int 0"
    "find (\<lambda>img. image_id img = ''a'') ?prev = Some (?prev ! 0)"
    by (simp_all add: image_id_plainImage)
  have j: "findIndex (\<lambda>img. image_id img = ''c'') ?prev = int 2"
    "find (\<lambda>img. image_id img = ''c'') ?prev = Some (?prev ! 2)"
    by (simp_all add: image_id_plainImage)
  have "reorder ?prev ''a'' ''c'' = map (\<lambda>(index, img). img\<lparr>order := index\<rparr>)
      (enumerate 0 (take 2 (removeAt 0 ?prev) @ ?prev ! 0 # drop 2 (removeAt 0 ?prev)))"
    by (rule reorder_eq [OF i(1) _ i(2) j(1) _ j(2)]) simp_all
  then have "map image_id (reorder ?prev ''a'' ''c'') = [''b'', ''c'', ''a'']"
    by (simp add: removeAt_def image_id_plainImage)
  then have ids: "map image_id (images (handleImageDrop ?st ''c'')) = [''b'', ''c'', ''a'']"
    by (simp add: handleImageDrop_def pageWith_def)
  have len: "length (images (handleImageDrop ?st ''c'')) = 3"
    using arg_cong [OF ids, of length] by simp
  have "map order (images (handleImageDrop ?st ''c''))
        = [0..<length (images (handleImageDrop ?st ''c''))]"
    using handleImageDrop_moves_dragged [of ?st "''a''" "''c''"]
    by (simp add: pageWith_def image_id_plainImage)
  then have "map order (images (handleImageDrop ?st ''c'')) = [0, 1, 2]"
    unfolding len by (simp add: upt_rec)
  with ids show ?thesis by (simp add: pageWith_def)
qed

text \<open>
  Claim C8 fails for a dragged image whose identifier is the empty string (the
  identifier that \<open>handleFileSelect\<close> builds when \<open>Math.random()\<close> returns 0): the
  guard \<open>!draggedImage\<close>, written to recognise that nothing is dragged, is also true of
  the empty string. The image is in the list and is dropped onto another image of the
  list, and the list stays as it was: the dragged image does not take the place of the
  target.
\<close>

theorem handleImageDrop_empty_id:
  "draggedImage (pageWith [plainImage [], plainImage ''b''] (Some [])) = Some []
   \<and> map image_id (images (pageWith [plainImage [], plainImage ''b''] (Some [])))
      = [[], ''b'']
   \<and> map image_id (images (handleImageDrop
        (pageWith [plainImage [], plainImage ''b''] (Some [])) ''b''))
      = [[], ''b'']"
  by (simp add: handleImageDrop_def pageWith_def plainImage_def)

section \<open>Properties of the brightness and contrast adjustment\<close>

lemma unat_byte:
  "0 \<le> f \<Longrightarrow> f < 256 \<Longrightarrow> real (unat (word_of_int f :: 8 word)) = of_int f"
  by (simp add: unat_eq_nat_uint uint_word_of_int_eq take_bit_int_eq_self)

text \<open>Storing a number of \<open>[0, 255]\<close> in the buffer moves it by at most one half.\<close>

lemma ToUint8Clamp_nearest:
  assumes "0 \<le> x" and "x \<le> 255"
  shows "\<bar>real (unat (ToUint8Clamp (Num x))) - x\<bar> \<le> 1 / 2"
proof -
  consider "x = 0" | "x = 255" | "0 < x" "x < 255" using assms by linarith
  then show ?thesis
  proof cases
    case 1
    then show ?thesis by simp
  next
    case 2
    then show ?thesis by simp
  next
    case 3
    define f where "f = \<lfloor>x\<rfloor>"
    have f: "of_int f \<le> x" "x < of_int f + 1" by (simp_all add: f_def)
    have f0: "0 \<le> f" using 3 by (simp add: f_def)
    have f255: "f < 255" using 3 by (simp add: f_def floor_less_iff)
    have a: "real (unat (word_of_int f :: 8 word)) = of_int f"
      using f0 f255 by (intro unat_byte) simp_all
    have b: "real (unat (word_of_int (f + 1) :: 8 word)) = of_int (f + 1)"
      using f0 f255 by (intro unat_byte) simp_all
    show ?thesis
      using 3 f a b
      by (auto simp: Let_def f_def [symmetric])
  qed
qed

lemma adjustLoop_length: "length (adjustLoop bf cf xs) = length xs"
  by (induction bf cf xs rule: adjustLoop.induct) simp_all

lemma adjustLoop_nth:
  "i < length xs \<Longrightarrow>
   adjustLoop bf cf xs ! i = (if i mod 4 = 3 then xs ! i else adjustChannel bf cf (xs ! i))"
proof (induction bf cf xs arbitrary: i rule: adjustLoop.induct)
  case (1 bf cf r g b a rest)
  show ?case
  proof (cases "i < 4")
    case True
    then consider "i = 0" | "i = 1" | "i = 2" | "i = 3" by linarith
    then show ?thesis by cases simp_all
  next
    case False
    then obtain k where k: "i = k + 4" by (metis add.commute le_Suc_ex not_le)
    with "1.prems" have "k < length rest" by simp
    from "1.IH" [OF this] show ?thesis by (simp add: k)
  qed
qed (auto simp: less_Suc_eq)

lemma adjustChannel_eq:
  "adjustChannel bf cf c =
     ToUint8Clamp (clamp255 (js_add (js_mul (js_sub
        (byteValue (ToUint8Clamp (clamp255 (js_mul (byteValue c) bf)))) (Num 128)) cf)
        (Num 128)))"
  by (simp add: adjustChannel_def Let_def)

text \<open>The factors of the examples below.\<close>

lemma fl_small_ints:
  "fl 1 = Num 1" "fl 2 = Num 2" "fl 13 = Num 13" "fl 24 = Num 24" "fl 25 = Num 25"
  "fl 48 = Num 48" "fl 176 = Num 176"
  "fl (- 103) = Num (- 103)" "fl (- 115) = Num (- 115)"
  using fl_nat [of 1] fl_nat [of 2] fl_nat [of 13] fl_nat [of 24] fl_nat [of 25]
    fl_nat [of 48] fl_nat [of 176] fl_neg_nat [of 103] fl_neg_nat [of 115]
  by simp_all

lemma brightnessFactor_minus_90:
  "js_add (Num 1) (js_div (Num (- 90)) (Num 100)) = Num (900719925474099 / 2 ^ 53)"
proof -
  have a: "fl (- 90 / 100) = Num (- (8106479329266893 / 2 ^ 53))"
    using fl_scaled [of "- 90 / 100" 53] by (simp add: roundEven_def)
  have b: "fl (1 + - (8106479329266893 / 2 ^ 53)) = Num (900719925474099 / 2 ^ 53)"
    using fl_scaled [of "1 + - (8106479329266893 / 2 ^ 53)" 56] by (simp add: roundEven_def)
  show ?thesis using a b by simp
qed

lemma factor_0: "js_add (Num 1) (js_div (Num 0) (Num 100)) = Num 1"
  by (simp add: fl_zero fl_small_ints)

lemma contrastFactor_10:
  "js_add (Num 1) (js_div (Num 10) (Num 100)) = Num (2476979795053773 / 2 ^ 51)"
proof -
  have a: "fl (10 / 100) = Num (3602879701896397 / 2 ^ 55)"
    using fl_scaled [of "10 / 100" 56] by (simp add: roundEven_def)
  have b: "fl (1 + 3602879701896397 / 2 ^ 55) = Num (2476979795053773 / 2 ^ 51)"
    using fl_scaled [of "1 + 3602879701896397 / 2 ^ 55" 52] by (simp add: roundEven_def)
  show ?thesis using a b by simp
qed

lemma factor_50: "js_add (Num 1) (js_div (Num 50) (Num 100)) = Num (3 / 2)"
proof -
  have a: "fl (50 / 100) = Num (1 / 2)"
    using fl_scaled [of "50 / 100" 53] by (simp add: roundEven_def)
  have b: "fl (1 + 1 / 2) = Num (3 / 2)"
    using fl_scaled [of "1 + 1 / 2" 52] by (simp add: roundEven_def)
  show ?thesis using a b by simp
qed

lemma factor_100: "js_add (Num 1) (js_div (Num 100) (Num 100)) = Num 2"
  using fl_small_ints by simp

lemmas adjust_defs = adjustChannel_def byteValue_def clamp255_def Math_max_def Math_min_def
  js_sub_def Let_def

lemma adjustChannel_255: "adjustChannel (Num (900719925474099 / 2 ^ 53)) (Num 1) 255 = 25"
proof -
  have a: "fl (255 * (900719925474099 / 2 ^ 53)) = Num (3588805953060863 / 2 ^ 47)"
    using fl_scaled [of "255 * (900719925474099 / 2 ^ 53)" 48] by (simp add: roundEven_def)
  have b: "ToUint8Clamp (clamp255 (js_mul (byteValue 255) (Num (900719925474099 / 2 ^ 53))))
           = 25"
    using a by (simp add: adjust_defs)
  show ?thesis
    unfolding adjustChannel_def Let_def b using fl_small_ints by (simp add: adjust_defs)
qed

lemma adjustChannel_13: "adjustChannel (Num 1) (Num (2476979795053773 / 2 ^ 51)) 13 = 1"
proof -
  have b: "ToUint8Clamp (clamp255 (js_mul (byteValue 13) (Num 1))) = 13"
    using fl_small_ints by (simp add: adjust_defs)
  have c: "fl (- 115 * (2476979795053773 / 2 ^ 51)) = Num (- (8901646138474497 / 2 ^ 46))"
    using fl_scaled [of "- 115 * (2476979795053773 / 2 ^ 51)" 46] by (simp add: roundEven_def)
  have d: "fl (- (8901646138474497 / 2 ^ 46) + 128) = Num (105553116266495 / 2 ^ 46)"
    using fl_scaled [of "- (8901646138474497 / 2 ^ 46) + 128" 52] by (simp add: roundEven_def)
  have e: "js_add (js_mul (js_sub (byteValue 13) (Num 128)) (Num (2476979795053773 / 2 ^ 51)))
             (Num 128) = Num (105553116266495 / 2 ^ 46)"
    using fl_small_ints c d by (simp add: adjust_defs)
  show ?thesis
    unfolding adjustChannel_def Let_def b e by (simp add: adjust_defs)
qed

lemma adjustChannel_101: "adjustChannel (Num (3 / 2)) (Num 2) 101 = 176"
proof -
  have a: "fl (101 * (3 / 2)) = Num (303 / 2)"
    using fl_scaled [of "101 * (3 / 2)" 45] by (simp add: roundEven_def)
  have b: "ToUint8Clamp (clamp255 (js_mul (byteValue 101) (Num (3 / 2)))) = 152"
    using a by (simp add: adjust_defs)
  show ?thesis
    unfolding adjustChannel_def Let_def b using fl_small_ints by (simp add: adjust_defs)
qed

text \<open>
  Claim C2, as the code has it: with the factors \<open>bf = 1 + b / 100\<close> and
  \<open>cf = 1 + k / 100\<close> computed in doubles, each red, green and blue byte \<open>c\<close> becomes
  \<open>R (clamp ((R (clamp (c * bf)) - 128) * cf + 128))\<close>, where every operation is the one
  of doubles, \<open>clamp\<close> is the clamp to \<open>[0, 255]\<close> and \<open>R\<close> is the rounding of the store
  into the byte buffer (to the nearest integer, ties to even): the value is rounded to a
  byte after the brightness step and again after the contrast step. Every alpha byte,
  the length of the buffer, and the width and height of the canvas are unchanged. (A
  canvas that yields no 2D context has no bytes to read and is returned as it is.)
\<close>

theorem adjustBrightnessContrast_bytes:
  fixes canvas :: Canvas and b k bf cf :: number and out :: Canvas
  defines "out \<equiv> adjustBrightnessContrast canvas b k"
    and "bf \<equiv> js_add (Num 1) (js_div b (Num 100))"
    and "cf \<equiv> js_add (Num 1) (js_div k (Num 100))"
  shows "width out = width canvas \<and> height out = height canvas
         \<and> (case ctx2d canvas of
               None \<Rightarrow> ctx2d out = None
             | Some data \<Rightarrow>
                 \<exists>data'. ctx2d out = Some data' \<and> length data' = length data
                   \<and> (\<forall>i<length data. data' ! i =
                         (if i mod 4 = 3 then data ! i
                          else ToUint8Clamp (clamp255 (js_add (js_mul (js_sub
                                 (byteValue (ToUint8Clamp (clamp255
                                    (js_mul (byteValue (data ! i)) bf))))
                                 (Num 128)) cf) (Num 128))))))"
proof (cases "ctx2d canvas")
  case None
  then show ?thesis by (simp add: out_def adjustBrightnessContrast_def)
next
  case (Some data)
  have out: "out = canvas\<lparr>ctx2d := Some (adjustLoop bf cf data)\<rparr>"
    using Some by (simp add: out_def bf_def cf_def adjustBrightnessContrast_def)
  have "\<forall>i<length data. adjustLoop bf cf data ! i =
          (if i mod 4 = 3 then data ! i
           else ToUint8Clamp (clamp255 (js_add (js_mul (js_sub
                  (byteValue (ToUint8Clamp (clamp255 (js_mul (byteValue (data ! i)) bf))))
                  (Num 128)) cf) (Num 128))))"
    by (simp add: adjustLoop_nth adjustChannel_eq)
  then show ?thesis
    unfolding out using Some by (simp add: adjustLoop_length)
qed

text \<open>
  With brightness -90 and contrast 0 the factor \<open>1 + (-90 / 100)\<close> is the double
  0.09999999999999998, and the white byte 255 becomes 25.499999999999993, stored as 25.
\<close>

theorem adjustBrightnessContrast_bytes_witness:
  "ctx2d (onePixel 255 255 255 77) = Some [255, 255, 255, 77]
   \<and> ctx2d (adjustBrightnessContrast (onePixel 255 255 255 77) (Num (- 90)) (Num 0))
      = Some [25, 25, 25, 77]
   \<and> width (adjustBrightnessContrast (onePixel 255 255 255 77) (Num (- 90)) (Num 0)) = 1
   \<and> height (adjustBrightnessContrast (onePixel 255 255 255 77) (Num (- 90)) (Num 0)) = 1"
proof -
  let ?out = "adjustBrightnessContrast (onePixel 255 255 255 77) (Num (- 90)) (Num 0)"
  have c: "ctx2d (onePixel 255 255 255 77) = Some [255, 255, 255, 77]"
    by (simp add: onePixel_def)
  from adjustBrightnessContrast_bytes [of "onePixel 255 255 255 77" "Num (- 90)" "Num 0"]
  obtain data' where d: "ctx2d ?out = Some data'" "length data' = 4"
    and n: "\<forall>i<4. data' ! i =
              (if i mod 4 = 3 then [255, 255, 255, 77] ! i
               else adjustChannel (Num (900719925474099 / 2 ^ 53)) (Num 1)
                      ([255, 255, 255, 77] ! i))"
    and w: "width ?out = 1" "height ?out = 1"
    unfolding c brightnessFactor_minus_90 factor_0 adjustChannel_eq [symmetric]
    by (auto simp: onePixel_def)
  from n [rule_format, of 0] n [rule_format, of 1] n [rule_format, of 2] n [rule_format, of 3]
    adjustChannel_255
  have "data' ! 0 = 25" "data' ! 1 = 25" "data' ! 2 = 25" "data' ! 3 = 77"
    by simp_all
  with d(2) have "data' = [25, 25, 25, 77]"
    by (simp add: list_eq_iff_nth_eq less_Suc_eq numeral_eq_Suc)
  with c d w show ?thesis by simp
qed

text \<open>
  With brightness 0 and contrast 10 the byte 13 becomes 1: the factor \<open>1 + 10 / 100\<close>
  is a double above 1.1, and the result 1.4999999999999858 is below the tie.
\<close>

lemma adjustChannel_rounding_of_factor:
  "adjustChannel (js_add (Num 1) (js_div (Num 0) (Num 100)))
     (js_add (Num 1) (js_div (Num 10) (Num 100))) 13 = 1"
  unfolding factor_0 contrastFactor_10 by (rule adjustChannel_13)

text \<open>
  Claim C2 as it is stated leaves the rounding between the two steps out. With
  brightness 50 and contrast 100 the byte 101 becomes 151.5 after the brightness step,
  is stored as 152, and ends as 176; the formula of the claim gives 175. Every number
  of this example is a double, so that no rounding of the arithmetic takes part.
\<close>

theorem adjustBrightnessContrast_rounds_between:
  "ctx2d (adjustBrightnessContrast (onePixel 101 101 101 255) (Num 50) (Num 100))
     = Some [176, 176, 176, 255]
   \<and> specChannel 50 100 (real (unat (101 :: 8 word))) = 175"
proof -
  have "ctx2d (adjustBrightnessContrast (onePixel 101 101 101 255) (Num 50) (Num 100))
        = Some [176, 176, 176, 255]"
    unfolding adjustBrightnessContrast_def Let_def factor_50 factor_100
    by (simp add: onePixel_def adjustChannel_101)
  moreover have "specChannel 50 100 (real (unat (101 :: 8 word))) = 175"
    by (simp add: specChannel_def)
  ultimately show ?thesis by simp
qed

section \<open>Properties of the rotation of a canvas\<close>

text \<open>The angle of a quarter turn in radians, and the new width and height.\<close>

lemma radians_90:
  "js_div (js_mul (Num 90) (Num Math_PI)) (Num 180) = Num (884279719003555 / 2 ^ 49)"
proof -
  have a: "fl (90 * (884279719003555 / 2 ^ 48)) = Num (4974073419394997 / 2 ^ 44)"
    using fl_scaled [of "90 * (884279719003555 / 2 ^ 48)" 44] by (simp add: roundEven_def)
  have b: "fl (4974073419394997 / 2 ^ 44 / 180) = Num (884279719003555 / 2 ^ 49)"
    using fl_scaled [of "4974073419394997 / 2 ^ 44 / 180" 52] by (simp add: roundEven_def)
  show ?thesis using a b by (simp add: Math_PI_def)
qed

lemma newWidth_90:
  "Math_ceil (js_add (js_mul (Num 1000) (Num (4967757600021511 / 2 ^ 106)))
     (js_mul (Num 100) (Num 1))) = Num 101"
proof -
  have a: "fl (1000 * (4967757600021511 / 2 ^ 106)) = Num (4851325781271007 / 2 ^ 96)"
    using fl_scaled [of "1000 * (4967757600021511 / 2 ^ 106)" 96] by (simp add: roundEven_def)
  have b: "fl 100 = Num 100"
    using fl_nat [of 100] by simp
  have c: "fl (4851325781271007 / 2 ^ 96 + 100) = Num (1759218604441601 / 2 ^ 44)"
    using fl_scaled [of "4851325781271007 / 2 ^ 96 + 100" 46] by (simp add: roundEven_def)
  have d: "js_add (js_mul (Num 1000) (Num (4967757600021511 / 2 ^ 106)))
             (js_mul (Num 100) (Num 1)) = Num (1759218604441601 / 2 ^ 44)"
    using a b c by simp
  show ?thesis unfolding d by (simp add: ceiling_def)
qed

lemma newHeight_90:
  "Math_ceil (js_add (js_mul (Num 1000) (Num 1))
     (js_mul (Num 100) (Num (4967757600021511 / 2 ^ 106)))) = Num 1000"
proof -
  have a: "fl (100 * (4967757600021511 / 2 ^ 106)) = Num (7762121250033611 / 2 ^ 100)"
    using fl_scaled [of "100 * (4967757600021511 / 2 ^ 106)" 100] by (simp add: roundEven_def)
  have b: "fl 1000 = Num 1000"
    using fl_nat [of 1000] by simp
  have c: "fl (1000 + 7762121250033611 / 2 ^ 100) = Num 1000"
    using fl_scaled [of "1000 + 7762121250033611 / 2 ^ 100" 43] by (simp add: roundEven_def)
  have d: "js_add (js_mul (Num 1000) (Num 1))
     (js_mul (Num 100) (Num (4967757600021511 / 2 ^ 106))) = Num 1000"
    using a b c by simp
  show ?thesis unfolding d by simp
qed

text \<open>
  Claim C3 says that a rotation by 90 degrees returns a canvas of dimensions \<open>(h, w)\<close>.
  \<open>Math.PI / 2\<close> is a double below the real number, its cosine is the double
  6.123233995736766e-17 and not 0, so that for a canvas of 1000 by 100 pixels the sum
  \<open>1000 * cos + 100 * sin\<close> is the double 100.00000000000006, and \<open>Math.ceil\<close> makes the
  new canvas 101 pixels wide.
\<close>

theorem rotateCanvas_quarter_turn:
  "width (rotateCanvas someRaster wideCanvas (Num 90)) = 101
   \<and> height (rotateCanvas someRaster wideCanvas (Num 90)) = 1000"
proof -
  have c: "Math_abs (Math_cos someRaster (Num (884279719003555 / 2 ^ 49)))
           = Num (4967757600021511 / 2 ^ 106)"
    by (simp add: someRaster_def quarterTurnCos_def)
  have s: "Math_abs (Math_sin someRaster (Num (884279719003555 / 2 ^ 49))) = Num 1"
    by (simp add: someRaster_def quarterTurnSin_def)
  have w: "Num (real (width wideCanvas)) = Num 1000" "Num (real (height wideCanvas)) = Num 100"
    by (simp_all add: wideCanvas_def)
  have "rotateCanvas someRaster wideCanvas (Num 90)
        = \<lparr>width = 101, height = 1000, ctx2d = Some []\<rparr>"
    unfolding rotateCanvas_def Let_def radians_90 c s w newWidth_90 newHeight_90
    by (simp add: wideCanvas_def someRaster_def canvasLength_def)
  then show ?thesis by simp
qed

text \<open>
  A half turn: \<open>Math.sin (Math.PI)\<close> is the double 1.2246467991473532e-16, and a canvas
  of 1920 by 1080 pixels becomes one of 1921 by 1081.
\<close>

lemma radians_180:
  "js_div (js_mul (Num 180) (Num Math_PI)) (Num 180) = Num (884279719003555 / 2 ^ 48)"
proof -
  have a: "fl (180 * (884279719003555 / 2 ^ 48)) = Num (4974073419394997 / 2 ^ 43)"
    using fl_scaled [of "180 * (884279719003555 / 2 ^ 48)" 43] by (simp add: roundEven_def)
  have b: "fl (4974073419394997 / 2 ^ 43 / 180) = Num (884279719003555 / 2 ^ 48)"
    using fl_scaled [of "4974073419394997 / 2 ^ 43 / 180" 51] by (simp add: roundEven_def)
  show ?thesis using a b by (simp add: Math_PI_def)
qed

lemma newWidth_180:
  "Math_ceil (js_add (js_mul (Num 1920) (Num 1))
     (js_mul (Num 1080) (Num (4967757600021511 / 2 ^ 105)))) = Num 1921"
proof -
  have a: "fl (1080 * (4967757600021511 / 2 ^ 105)) = Num (5239431843772687 / 2 ^ 95)"
    using fl_scaled [of "1080 * (4967757600021511 / 2 ^ 105)" 95] by (simp add: roundEven_def)
  have b: "fl 1920 = Num 1920"
    using fl_nat [of 1920] by simp
  have c: "fl (1920 + 5239431843772687 / 2 ^ 95) = Num (8444249301319681 / 2 ^ 42)"
    using fl_scaled [of "1920 + 5239431843772687 / 2 ^ 95" 42] by (simp add: roundEven_def)
  have d: "js_add (js_mul (Num 1920) (Num 1))
     (js_mul (Num 1080) (Num (4967757600021511 / 2 ^ 105))) = Num (8444249301319681 / 2 ^ 42)"
    using a b c by simp
  show ?thesis unfolding d by (simp add: ceiling_def)
qed

lemma newHeight_180:
  "Math_ceil (js_add (js_mul (Num 1920) (Num (4967757600021511 / 2 ^ 105)))
     (js_mul (Num 1080) (Num 1))) = Num 1081"
proof -
  have a: "fl (1920 * (4967757600021511 / 2 ^ 105)) = Num (4657272750020167 / 2 ^ 94)"
    using fl_scaled [of "1920 * (4967757600021511 / 2 ^ 105)" 94] by (simp add: roundEven_def)
  have b: "fl 1080 = Num 1080"
    using fl_nat [of 1080] by simp
  have c: "fl (4657272750020167 / 2 ^ 94 + 1080) = Num (4749890231992321 / 2 ^ 42)"
    using fl_scaled [of "4657272750020167 / 2 ^ 94 + 1080" 42] by (simp add: roundEven_def)
  have d: "js_add (js_mul (Num 1920) (Num (4967757600021511 / 2 ^ 105)))
     (js_mul (Num 1080) (Num 1)) = Num (4749890231992321 / 2 ^ 42)"
    using a b c by simp
  show ?thesis unfolding d by (simp add: ceiling_def)
qed

lemma rotateCanvas_half_turn:
  "width (rotateCanvas someRaster hdCanvas (Num 180)) = 1921
   \<and> height (rotateCanvas someRaster hdCanvas (Num 180)) = 1081"
proof -
  have c: "Math_abs (Math_cos someRaster (Num (884279719003555 / 2 ^ 48))) = Num 1"
    by (simp add: someRaster_def quarterTurnCos_def)
  have s: "Math_abs (Math_sin someRaster (Num (884279719003555 / 2 ^ 48)))
           = Num (4967757600021511 / 2 ^ 105)"
    by (simp add: someRaster_def quarterTurnSin_def)
  have w: "Num (real (width hdCanvas)) = Num 1920" "Num (real (height hdCanvas)) = Num 1080"
    by (simp_all add: hdCanvas_def)
  have "rotateCanvas someRaster hdCanvas (Num 180)
        = \<lparr>width = 1921, height = 1081, ctx2d = Some []\<rparr>"
    unfolding rotateCanvas_def Let_def radians_180 c s w newWidth_180 newHeight_180
    by (simp add: hdCanvas_def someRaster_def canvasLength_def)
  then show ?thesis by simp
qed

text \<open>
  Three quarter turns: the cosine of \<open>(270 * Math.PI) / 180\<close> is the double
  -1.8369701987210297e-16, and the canvas of 1000 by 100 pixels becomes one of 101 by
  1000 again.
\<close>

lemma radians_270:
  "js_div (js_mul (Num 270) (Num Math_PI)) (Num 180) = Num (2652839157010665 / 2 ^ 49)"
proof -
  have a: "fl (270 * (884279719003555 / 2 ^ 48)) = Num (7461110129092495 / 2 ^ 43)"
    using fl_scaled [of "270 * (884279719003555 / 2 ^ 48)" 43] by (simp add: roundEven_def)
  have b: "fl (7461110129092495 / 2 ^ 43 / 180) = Num (2652839157010665 / 2 ^ 49)"
    using fl_scaled [of "7461110129092495 / 2 ^ 43 / 180" 50] by (simp add: roundEven_def)
  show ?thesis using a b by (simp add: Math_PI_def)
qed

lemma newWidth_270:
  "Math_ceil (js_add (js_mul (Num 1000) (Num (3725818200016133 / 2 ^ 104)))
     (js_mul (Num 100) (Num 1))) = Num 101"
proof -
  have a: "fl (1000 * (3725818200016133 / 2 ^ 104)) = Num (3638494335953255 / 2 ^ 94)"
    using fl_scaled [of "1000 * (3725818200016133 / 2 ^ 104)" 95] by (simp add: roundEven_def)
  have b: "fl 100 = Num 100"
    using fl_nat [of 100] by simp
  have c: "fl (3638494335953255 / 2 ^ 94 + 100) = Num (7036874417766413 / 2 ^ 46)"
    using fl_scaled [of "3638494335953255 / 2 ^ 94 + 100" 46] by (simp add: roundEven_def)
  have d: "js_add (js_mul (Num 1000) (Num (3725818200016133 / 2 ^ 104)))
             (js_mul (Num 100) (Num 1)) = Num (7036874417766413 / 2 ^ 46)"
    using a b c by simp
  show ?thesis unfolding d by (simp add: ceiling_def)
qed

lemma newHeight_270:
  "Math_ceil (js_add (js_mul (Num 1000) (Num 1))
     (js_mul (Num 100) (Num (3725818200016133 / 2 ^ 104)))) = Num 1000"
proof -
  have a: "fl (100 * (3725818200016133 / 2 ^ 104)) = Num (727698867190651 / 2 ^ 95)"
    using fl_scaled [of "100 * (3725818200016133 / 2 ^ 104)" 98] by (simp add: roundEven_def)
  have b: "fl 1000 = Num 1000"
    using fl_nat [of 1000] by simp
  have c: "fl (1000 + 727698867190651 / 2 ^ 95) = Num 1000"
    using fl_scaled [of "1000 + 727698867190651 / 2 ^ 95" 43] by (simp add: roundEven_def)
  have d: "js_add (js_mul (Num 1000) (Num 1))
     (js_mul (Num 100) (Num (3725818200016133 / 2 ^ 104))) = Num 1000"
    using a b c by simp
  show ?thesis unfolding d by simp
qed

lemma rotateCanvas_three_quarter_turn:
  "width (rotateCanvas someRaster wideCanvas (Num 270)) = 101
   \<and> height (rotateCanvas someRaster wideCanvas (Num 270)) = 1000"
proof -
  have c: "Math_abs (Math_cos someRaster (Num (2652839157010665 / 2 ^ 49)))
           = Num (3725818200016133 / 2 ^ 104)"
    by (simp add: someRaster_def quarterTurnCos_def)
  have s: "Math_abs (Math_sin someRaster (Num (2652839157010665 / 2 ^ 49))) = Num 1"
    by (simp add: someRaster_def quarterTurnSin_def)
  have w: "Num (real (width wideCanvas)) = Num 1000" "Num (real (height wideCanvas)) = Num 100"
    by (simp_all add: wideCanvas_def)
  have "rotateCanvas someRaster wideCanvas (Num 270)
        = \<lparr>width = 101, height = 1000, ctx2d = Some []\<rparr>"
    unfolding rotateCanvas_def Let_def radians_270 c s w newWidth_270 newHeight_270
    by (simp add: wideCanvas_def someRaster_def canvasLength_def)
  then show ?thesis by simp
qed

subsection \<open>The quarter turn on every platform\<close>

text \<open>
  The partial sums of the series of the arc tangent bound it from both sides, and the
  formula of Machin gives \<open>\<pi>\<close> to 21 decimal places.
\<close>

lemma arctan_partial_sums:
  fixes x :: real
  assumes "0 < x" and "x \<le> 1"
  shows "(\<Sum>i<2 * n. (- 1) ^ i * (1 / real (i * 2 + 1) * x ^ (i * 2 + 1))) \<le> arctan x"
    and "arctan x \<le> (\<Sum>i<2 * n + 1. (- 1) ^ i * (1 / real (i * 2 + 1) * x ^ (i * 2 + 1)))"
proof -
  have x: "\<bar>x\<bar> \<le> 1" using assms by simp
  have pos: "0 < 1 / real (0 * 2 + 1) * x ^ (0 * 2 + 1)" using assms by simp
  from summable_Leibniz(2) [OF zeroseq_arctan_series [OF x] monoseq_arctan_series [OF x],
      rule_format, OF pos, of n]
  show "(\<Sum>i<2 * n. (- 1) ^ i * (1 / real (i * 2 + 1) * x ^ (i * 2 + 1))) \<le> arctan x"
    and "arctan x \<le> (\<Sum>i<2 * n + 1. (- 1) ^ i * (1 / real (i * 2 + 1) * x ^ (i * 2 + 1)))"
    unfolding arctan_series [OF x] by simp_all
qed

lemma arctan_5_bounds:
  "3818185423676890926493337 / 2 ^ 84 \<le> arctan (1 / 5)"
  "arctan (1 / 5) \<le> 1909092711838445463248459 / 2 ^ 83"
proof -
  have "(3818185423676890926493337 / 2 ^ 84 :: real)
        \<le> (\<Sum>i<14. (- 1) ^ i * (1 / real (i * 2 + 1) * (1 / 5) ^ (i * 2 + 1)))"
    by (simp add: lessThan_nat_numeral power_divide)
  also have "\<dots> \<le> arctan (1 / 5)"
    using arctan_partial_sums(1) [of "1 / 5" 7] by simp
  finally show "3818185423676890926493337 / 2 ^ 84 \<le> arctan (1 / 5)" .
  have "arctan (1 / 5)
        \<le> (\<Sum>i<15. (- 1) ^ i * (1 / real (i * 2 + 1) * (1 / 5 :: real) ^ (i * 2 + 1)))"
    using arctan_partial_sums(2) [of "1 / 5" 7] by simp
  also have "\<dots> \<le> 1909092711838445463248459 / 2 ^ 83"
    by (simp add: lessThan_nat_numeral power_divide)
  finally show "arctan (1 / 5) \<le> 1909092711838445463248459 / 2 ^ 83" .
qed

lemma arctan_239_bounds:
  "2529118755069043213573 / 2 ^ 79 \<le> arctan (1 / 239)"
  "arctan (1 / 239) \<le> 80931800162209382835181 / 2 ^ 84"
proof -
  have "(2529118755069043213573 / 2 ^ 79 :: real)
        \<le> (\<Sum>i<4. (- 1) ^ i * (1 / real (i * 2 + 1) * (1 / 239) ^ (i * 2 + 1)))"
    by (simp add: lessThan_nat_numeral power_divide)
  also have "\<dots> \<le> arctan (1 / 239)"
    using arctan_partial_sums(1) [of "1 / 239" 2] by simp
  finally show "2529118755069043213573 / 2 ^ 79 \<le> arctan (1 / 239)" .
  have "arctan (1 / 239)
        \<le> (\<Sum>i<5. (- 1) ^ i * (1 / real (i * 2 + 1) * (1 / 239 :: real) ^ (i * 2 + 1)))"
    using arctan_partial_sums(2) [of "1 / 239" 2] by simp
  also have "\<dots> \<le> 80931800162209382835181 / 2 ^ 84"
    by (simp add: lessThan_nat_numeral power_divide)
  finally show "arctan (1 / 239) \<le> 80931800162209382835181 / 2 ^ 84" .
qed

lemma pi_bounds:
  "15191809894545354323138167 / 2 ^ 82 \<le> pi"
  "pi \<le> 1898976236818169290394167 / 2 ^ 79"
proof -
  have m: "pi = 16 * arctan (1 / 5) - 4 * arctan (1 / 239)"
    using machin by simp
  show "15191809894545354323138167 / 2 ^ 82 \<le> pi"
    unfolding m using arctan_5_bounds(1) arctan_239_bounds(2) by simp
  show "pi \<le> 1898976236818169290394167 / 2 ^ 79"
    unfolding m using arctan_5_bounds(2) arctan_239_bounds(1) by simp
qed

lemma quarter_gap:
  "592189047 / 2 ^ 83 \<le> pi / 2 - 884279719003555 / 2 ^ 49"
  "pi / 2 - 884279719003555 / 2 ^ 49 \<le> 74025527 / 2 ^ 80"
  using pi_bounds by simp_all

text \<open>\<open>Math.PI\<close> is the double nearest to \<open>\<pi>\<close>.\<close>

lemma roundEven_nearest:
  assumes "\<bar>x - of_int n\<bar> < 1 / 2"
  shows "roundEven x = n"
proof -
  have "\<bar>of_int (roundEven x) - x\<bar> \<le> 1 / 2" by (rule roundEven_close)
  with assms have "\<bar>real_of_int (roundEven x) - of_int n\<bar> < 1" by linarith
  then have "\<bar>real_of_int (roundEven x - n)\<bar> < 1" by simp
  then have "\<bar>roundEven x - n\<bar> < 1" by linarith
  then show ?thesis by simp
qed

lemma fl_pi: "fl pi = Num Math_PI"
proof -
  have lo: "2 ^ 52 \<le> \<bar>pi\<bar> * 2 ^ 51" using pi_ge_two by simp
  have hi: "\<bar>pi\<bar> * 2 ^ 51 < 2 ^ 53" using pi_less_4 by simp
  have "\<bar>pi * 2 ^ 51 - of_int 7074237752028440\<bar> < 1 / 2"
    unfolding abs_less_iff using pi_bounds by simp
  then have "roundEven (pi * 2 ^ 51) = 7074237752028440"
    by (rule roundEven_nearest)
  from fl_eval [OF lo hi _ this] show ?thesis by (simp add: Math_PI_def)
qed

text \<open>
  The cosine and the sine of the double \<open>Math.PI / 2\<close>: the double is below \<open>\<pi> / 2\<close> by
  6.123e-17, which is its cosine up to \<open>2 ^ -83\<close>.
\<close>

lemma cos_quarter:
  "592189046 / 2 ^ 83 \<le> cos (884279719003555 / 2 ^ 49 :: real)"
  "cos (884279719003555 / 2 ^ 49 :: real) \<le> 74025527 / 2 ^ 80"
proof -
  define t :: real where "t = pi / 2 - 884279719003555 / 2 ^ 49"
  have t: "592189047 / 2 ^ 83 \<le> t" "t \<le> 74025527 / 2 ^ 80"
    using quarter_gap by (simp_all add: t_def)
  then have t0: "0 \<le> t" by simp
  have c: "cos (884279719003555 / 2 ^ 49 :: real) = sin t"
    by (simp add: t_def cos_sin_eq)
  have "sin t \<le> t" using t0 by (rule sin_x_le_x)
  with t(2) show "cos (884279719003555 / 2 ^ 49 :: real) \<le> 74025527 / 2 ^ 80"
    unfolding c by simp
  have "\<bar>sin t - (\<Sum>m<3. sin_coeff m * t ^ m)\<bar> \<le> inverse (fact 3) * \<bar>t\<bar> ^ 3"
    by (rule Maclaurin_sin_bound)
  moreover have "(\<Sum>m<3. sin_coeff m * t ^ m) = t"
    by (simp add: lessThan_nat_numeral sin_coeff_def)
  moreover have "inverse (fact 3) * \<bar>t\<bar> ^ 3 \<le> 1 / 2 ^ 83"
  proof -
    define u where "u = \<bar>t\<bar> ^ 3"
    have "\<bar>t\<bar> \<le> 1 / 2 ^ 28" using t0 t(2) by simp
    then have "\<bar>t\<bar> ^ 3 \<le> (1 / 2 ^ 28) ^ 3" by (intro power_mono) simp_all
    also have "\<dots> = (1::real) / 2 ^ 84" by (simp add: power_divide)
    finally have "u \<le> 1 / 2 ^ 84" by (simp only: u_def)
    moreover have "inverse (fact 3) * \<bar>t\<bar> ^ 3 = u / 6"
      by (simp add: u_def fact_numeral)
    ultimately show ?thesis by simp
  qed
  ultimately have "t - 1 / 2 ^ 83 \<le> sin t" by linarith
  with t(1) show "592189046 / 2 ^ 83 \<le> cos (884279719003555 / 2 ^ 49 :: real)"
    unfolding c by simp
qed

lemma sin_quarter:
  "1 - 1 / 2 ^ 100 \<le> sin (884279719003555 / 2 ^ 49 :: real)"
  "sin (884279719003555 / 2 ^ 49 :: real) \<le> 1"
proof -
  define t :: real where "t = pi / 2 - 884279719003555 / 2 ^ 49"
  have t: "592189047 / 2 ^ 83 \<le> t" "t \<le> 74025527 / 2 ^ 80"
    using quarter_gap by (simp_all add: t_def)
  have s: "sin (884279719003555 / 2 ^ 49 :: real) = cos t"
    by (simp add: t_def sin_cos_eq)
  show "sin (884279719003555 / 2 ^ 49 :: real) \<le> 1" by simp
  define v where "v = (sin (t / 2))\<^sup>2"
  have "cos t = 1 - 2 * v"
    using cos_double_sin [of "t / 2"] by (simp add: v_def)
  moreover have "v \<le> 1 / 2 ^ 102"
  proof -
    have "\<bar>sin (t / 2)\<bar> \<le> \<bar>t / 2\<bar>" by (rule abs_sin_x_le_abs_x)
    also have "\<dots> \<le> 1 / 2 ^ 51" using t by simp
    finally have "\<bar>sin (t / 2)\<bar> \<le> 1 / 2 ^ 51" .
    then have "\<bar>sin (t / 2)\<bar>\<^sup>2 \<le> (1 / 2 ^ 51)\<^sup>2" by (intro power_mono) simp_all
    also have "\<dots> = (1::real) / 2 ^ 102" by (simp add: power_divide)
    finally show ?thesis by (simp only: v_def power2_abs)
  qed
  ultimately show "1 - 1 / 2 ^ 100 \<le> sin (884279719003555 / 2 ^ 49 :: real)"
    unfolding s by simp
qed

text \<open>
  The values of \<open>quarterTurnCos\<close> and \<open>quarterTurnSin\<close> at the double \<open>Math.PI / 2\<close>
  are the cosine and the sine up to \<open>2 ^ -67\<close>.
\<close>

lemma quarterTurn_accurate:
  "\<bar>4967757600021511 / 2 ^ 106 - cos (884279719003555 / 2 ^ 49 :: real)\<bar> \<le> 1 / 2 ^ 67"
  "\<bar>1 - sin (884279719003555 / 2 ^ 49 :: real)\<bar> \<le> 1 / 2 ^ 100"
proof -
  define c :: real where "c = cos (884279719003555 / 2 ^ 49)"
  define s :: real where "s = sin (884279719003555 / 2 ^ 49)"
  have c: "592189046 / 2 ^ 83 \<le> c" "c \<le> 74025527 / 2 ^ 80"
    using cos_quarter by (simp_all add: c_def)
  have s: "1 - 1 / 2 ^ 100 \<le> s" "s \<le> 1"
    using sin_quarter by (simp_all add: s_def)
  have "\<bar>4967757600021511 / 2 ^ 106 - c\<bar> \<le> 1 / 2 ^ 67"
    unfolding abs_le_iff using c by simp
  then show "\<bar>4967757600021511 / 2 ^ 106 - cos (884279719003555 / 2 ^ 49 :: real)\<bar>
             \<le> 1 / 2 ^ 67"
    by (simp only: c_def)
  have "\<bar>1 - s\<bar> \<le> 1 / 2 ^ 100"
    unfolding abs_le_iff using s by simp
  then show "\<bar>1 - sin (884279719003555 / 2 ^ 49 :: real)\<bar> \<le> 1 / 2 ^ 100"
    by (simp only: s_def)
qed

text \<open>
  The same for the half turn and for three quarter turns, from the sine and the cosine
  of a small angle.
\<close>

lemma small_angle:
  fixes a :: real
  assumes "0 \<le> a" and "a \<le> 1 / 2 ^ 50"
  shows "a - 1 / 2 ^ 150 \<le> sin a" and "sin a \<le> a"
    and "1 - 1 / 2 ^ 100 \<le> cos a" and "cos a \<le> 1"
proof -
  show "sin a \<le> a" using assms(1) by (rule sin_x_le_x)
  show "cos a \<le> 1" by simp
  have "\<bar>sin a - (\<Sum>m<3. sin_coeff m * a ^ m)\<bar> \<le> inverse (fact 3) * \<bar>a\<bar> ^ 3"
    by (rule Maclaurin_sin_bound)
  moreover have "(\<Sum>m<3. sin_coeff m * a ^ m) = a"
    by (simp add: lessThan_nat_numeral sin_coeff_def)
  moreover have "inverse (fact 3) * \<bar>a\<bar> ^ 3 \<le> 1 / 2 ^ 150"
  proof -
    define u where "u = \<bar>a\<bar> ^ 3"
    have "\<bar>a\<bar> \<le> 1 / 2 ^ 50" using assms by simp
    then have "\<bar>a\<bar> ^ 3 \<le> (1 / 2 ^ 50) ^ 3" by (intro power_mono) simp_all
    also have "\<dots> = (1::real) / 2 ^ 150" by (simp add: power_divide)
    finally have "u \<le> 1 / 2 ^ 150" by (simp only: u_def)
    moreover have "0 \<le> u" by (simp add: u_def)
    moreover have "inverse (fact 3) * \<bar>a\<bar> ^ 3 = u / 6"
      by (simp add: u_def fact_numeral)
    ultimately show ?thesis by simp
  qed
  ultimately show "a - 1 / 2 ^ 150 \<le> sin a" by linarith
  define v where "v = (sin (a / 2))\<^sup>2"
  have "cos a = 1 - 2 * v"
    using cos_double_sin [of "a / 2"] by (simp add: v_def)
  moreover have "v \<le> 1 / 2 ^ 102"
  proof -
    have "\<bar>sin (a / 2)\<bar> \<le> \<bar>a / 2\<bar>" by (rule abs_sin_x_le_abs_x)
    also have "\<dots> \<le> 1 / 2 ^ 51" using assms by simp
    finally have "\<bar>sin (a / 2)\<bar> \<le> 1 / 2 ^ 51" .
    then have "\<bar>sin (a / 2)\<bar>\<^sup>2 \<le> (1 / 2 ^ 51)\<^sup>2" by (intro power_mono) simp_all
    also have "\<dots> = (1::real) / 2 ^ 102" by (simp add: power_divide)
    finally show ?thesis by (simp only: v_def power2_abs)
  qed
  ultimately show "1 - 1 / 2 ^ 100 \<le> cos a" by simp
qed

lemma halfTurn_accurate:
  "\<bar>4967757600021511 / 2 ^ 105 - sin (884279719003555 / 2 ^ 48 :: real)\<bar> \<le> 1 / 2 ^ 67"
  "\<bar>- 1 - cos (884279719003555 / 2 ^ 48 :: real)\<bar> \<le> 1 / 2 ^ 100"
proof -
  define a :: real where "a = pi - 884279719003555 / 2 ^ 48"
  have a: "0 \<le> a" "a \<le> 1 / 2 ^ 50"
    "4967757600021511 / 2 ^ 105 - 1 / 2 ^ 68 \<le> a"
    "a \<le> 4967757600021511 / 2 ^ 105 + 1 / 2 ^ 68"
    using pi_bounds by (simp_all add: a_def)
  have x: "(884279719003555 / 2 ^ 48 :: real) = pi - a" by (simp add: a_def)
  have s: "sin (884279719003555 / 2 ^ 48 :: real) = sin a"
    unfolding x by (rule sin_pi_minus)
  have c: "cos (884279719003555 / 2 ^ 48 :: real) = - cos a"
    unfolding x by (rule cos_pi_minus)
  note b = small_angle [OF a(1,2)]
  define ca where "ca = cos a"
  have cb: "1 - 1 / 2 ^ 100 \<le> ca" "ca \<le> 1"
    using b(3,4) by (simp_all only: ca_def)
  show "\<bar>4967757600021511 / 2 ^ 105 - sin (884279719003555 / 2 ^ 48 :: real)\<bar> \<le> 1 / 2 ^ 67"
    unfolding s abs_le_iff using a(3,4) b(1,2) by simp
  show "\<bar>- 1 - cos (884279719003555 / 2 ^ 48 :: real)\<bar> \<le> 1 / 2 ^ 100"
    unfolding c ca_def [symmetric] abs_le_iff using cb by simp
qed

lemma threeQuarterTurn_accurate:
  "\<bar>- (3725818200016133 / 2 ^ 104) - cos (2652839157010665 / 2 ^ 49 :: real)\<bar> \<le> 1 / 2 ^ 66"
  "\<bar>- 1 - sin (2652839157010665 / 2 ^ 49 :: real)\<bar> \<le> 1 / 2 ^ 100"
proof -
  define a :: real where "a = 3 / 2 * pi - 2652839157010665 / 2 ^ 49"
  have a: "0 \<le> a" "a \<le> 1 / 2 ^ 50"
    "3725818200016133 / 2 ^ 104 - 1 / 2 ^ 67 \<le> a"
    "a \<le> 3725818200016133 / 2 ^ 104 + 1 / 2 ^ 67"
    using pi_bounds by (simp_all add: a_def)
  have x: "(2652839157010665 / 2 ^ 49 :: real) = 3 / 2 * pi - a" by (simp add: a_def)
  have c: "cos (2652839157010665 / 2 ^ 49 :: real) = - sin a"
    unfolding x using cos_3over2_pi sin_3over2_pi by (simp add: cos_diff)
  have s: "sin (2652839157010665 / 2 ^ 49 :: real) = - cos a"
    unfolding x using cos_3over2_pi sin_3over2_pi by (simp add: sin_diff)
  note b = small_angle [OF a(1,2)]
  define ca where "ca = cos a"
  have cb: "1 - 1 / 2 ^ 100 \<le> ca" "ca \<le> 1"
    using b(3,4) by (simp_all only: ca_def)
  show "\<bar>- (3725818200016133 / 2 ^ 104) - cos (2652839157010665 / 2 ^ 49 :: real)\<bar>
        \<le> 1 / 2 ^ 66"
    unfolding c abs_le_iff using a(3,4) b(1,2) by simp
  show "\<bar>- 1 - sin (2652839157010665 / 2 ^ 49 :: real)\<bar> \<le> 1 / 2 ^ 100"
    unfolding s ca_def [symmetric] abs_le_iff using cb by simp
qed

lemma ceiling_101: "100 < r \<Longrightarrow> r \<le> 101 \<Longrightarrow> \<lceil>r :: real\<rceil> = 101"
  by (rule ceiling_unique) simp_all

text \<open>
  The extra column of pixels does not hang on the last bits of \<open>Math.cos\<close> and
  \<open>Math.sin\<close>: whenever their values at the double \<open>Math.PI / 2\<close> are within \<open>2 ^ -56\<close>
  of the cosine and the sine, a canvas of 1000 by 100 pixels is rotated by 90 degrees
  into a canvas 101 pixels wide.
\<close>

lemma rotateCanvas_quarter_turn_width:
  fixes env :: Raster and canvas :: Canvas and c s :: real
  assumes ctx: "ctx2d canvas = Some data"
    and dims: "width canvas = 1000" "height canvas = 100"
    and cos: "Math_cos env (Num (884279719003555 / 2 ^ 49)) = Num c"
             "\<bar>c - cos (884279719003555 / 2 ^ 49)\<bar> \<le> 1 / 2 ^ 56"
    and sin: "Math_sin env (Num (884279719003555 / 2 ^ 49)) = Num s"
             "\<bar>s - sin (884279719003555 / 2 ^ 49)\<bar> \<le> 1 / 2 ^ 56"
    and rot: "\<And>w h. rotatedContext env canvas (Num (884279719003555 / 2 ^ 49)) w h \<noteq> None"
  shows "width (rotateCanvas env canvas (Num 90)) = 101"
proof -
  define c0 :: real where "c0 = cos (884279719003555 / 2 ^ 49)"
  define s0 :: real where "s0 = sin (884279719003555 / 2 ^ 49)"
  have c0: "592189046 / 2 ^ 83 \<le> c0" "c0 \<le> 74025527 / 2 ^ 80"
    using cos_quarter by (simp_all add: c0_def)
  have s0: "1 - 1 / 2 ^ 100 \<le> s0" "s0 \<le> 1"
    using sin_quarter by (simp_all add: s0_def)
  have "\<bar>c - c0\<bar> \<le> 1 / 2 ^ 56" using cos(2) by (simp only: c0_def)
  then have "c0 - 1 / 2 ^ 56 \<le> c" "c \<le> c0 + 1 / 2 ^ 56"
    unfolding abs_le_iff by simp_all
  with c0 have c: "457971318 / 2 ^ 83 \<le> c" "c \<le> 1 / 2 ^ 53" by simp_all
  have "\<bar>s - s0\<bar> \<le> 1 / 2 ^ 56" using sin(2) by (simp only: s0_def)
  then have "s0 - 1 / 2 ^ 56 \<le> s" "s \<le> s0 + 1 / 2 ^ 56"
    unfolding abs_le_iff by simp_all
  with s0 have s: "1 - 1 / 2 ^ 55 \<le> s" "s \<le> 1 + 1 / 2 ^ 56" by simp_all
  define p where "p = roundToDouble (1000 * c)"
  define q where "q = roundToDouble (100 * s)"
  define r where "r = roundToDouble (p + q)"
  have small: "(1::real) / 2 ^ 1000 \<le> 1 / 2 ^ 60"
    by (intro divide_left_mono power_increasing) simp_all
  have big: "(128::real) \<le> 2 ^ 1000"
  proof -
    have "(128::real) = 2 ^ 7" by simp
    also have "\<dots> \<le> 2 ^ 1000" by (intro power_increasing) simp_all
    finally show ?thesis .
  qed
  have pr: "1 / 2 ^ 1000 \<le> \<bar>1000 * c\<bar>" "\<bar>1000 * c\<bar> \<le> 2 ^ 1000"
    using c small big by simp_all
  have p: "fl (1000 * c) = Num p" "\<bar>p - 1000 * c\<bar> \<le> \<bar>1000 * c\<bar> / 2 ^ 53"
    unfolding p_def by (rule fl_normal [OF pr])+
  have qr: "1 / 2 ^ 1000 \<le> \<bar>100 * s\<bar>" "\<bar>100 * s\<bar> \<le> 2 ^ 1000"
    using s small big by simp_all
  have q: "fl (100 * s) = Num q" "\<bar>q - 100 * s\<bar> \<le> \<bar>100 * s\<bar> / 2 ^ 53"
    unfolding q_def by (rule fl_normal [OF qr])+
  have pb: "1000 / 2 ^ 56 \<le> p" "p \<le> 1001 / 2 ^ 53"
    using p(2) c unfolding abs_le_iff by (simp_all add: abs_if split: if_splits)
  have qb: "100 - 1 / 2 ^ 46 \<le> q" "q \<le> 100 + 1 / 2 ^ 46"
    using q(2) s unfolding abs_le_iff by (simp_all add: abs_if split: if_splits)
  have zb: "100 + 1 / 2 ^ 45 \<le> p + q" "p + q \<le> 100 + 1 / 2 ^ 42"
    using pb qb p(2) q(2) c s unfolding abs_le_iff
    by (simp_all add: abs_if split: if_splits)
  have zr: "1 / 2 ^ 1000 \<le> \<bar>p + q\<bar>" "\<bar>p + q\<bar> \<le> 2 ^ 1000"
    using zb small big by simp_all
  have r: "fl (p + q) = Num r" "\<bar>r - (p + q)\<bar> \<le> \<bar>p + q\<bar> / 2 ^ 53"
    unfolding r_def by (rule fl_normal [OF zr])+
  have rb: "100 < r" "r \<le> 101"
    using r(2) zb unfolding abs_le_iff by (simp_all add: abs_if split: if_splits)
  have ceil: "\<lceil>r\<rceil> = 101" using rb by (rule ceiling_101)
  have cabs: "Math_abs (Num c) = Num c" using c by simp
  have sabs: "Math_abs (Num s) = Num s" using s by simp
  have w: "Num (real (width canvas)) = Num 1000" "Num (real (height canvas)) = Num 100"
    by (simp_all add: dims)
  have nw: "Math_ceil (js_add (js_mul (Num 1000) (Num c)) (js_mul (Num 100) (Num s)))
            = Num 101"
    by (simp add: p q r ceil)
  define nh where
    "nh = Math_ceil (js_add (js_mul (Num 1000) (Num s)) (js_mul (Num 100) (Num c)))"
  from rot [of "Num 101" nh] obtain rotated where
    rc: "rotatedContext env canvas (Num (884279719003555 / 2 ^ 49)) (Num 101) nh
         = Some rotated"
    by auto
  have "rotateCanvas env canvas (Num 90)
        = \<lparr>width = canvasLength 300 (Num 101), height = canvasLength 150 nh,
           ctx2d = Some rotated\<rparr>"
    unfolding rotateCanvas_def Let_def radians_90 cos(1) sin(1) cabs sabs w nw
      nh_def [symmetric]
    using rc ctx by simp
  then show ?thesis by (simp add: canvasLength_def)
qed

text \<open>The platform of the examples is one of these.\<close>

lemma rotateCanvas_quarter_turn_width_example:
  "ctx2d wideCanvas = Some [] \<and> width wideCanvas = 1000 \<and> height wideCanvas = 100
   \<and> Math_cos someRaster (Num (884279719003555 / 2 ^ 49))
       = Num (4967757600021511 / 2 ^ 106)
   \<and> \<bar>4967757600021511 / 2 ^ 106 - cos (884279719003555 / 2 ^ 49 :: real)\<bar> \<le> 1 / 2 ^ 56
   \<and> Math_sin someRaster (Num (884279719003555 / 2 ^ 49)) = Num 1
   \<and> \<bar>1 - sin (884279719003555 / 2 ^ 49 :: real)\<bar> \<le> 1 / 2 ^ 56
   \<and> width (rotateCanvas someRaster wideCanvas (Num 90)) = 101"
proof -
  have a: "ctx2d wideCanvas = Some []" "width wideCanvas = 1000" "height wideCanvas = 100"
    by (simp_all add: wideCanvas_def)
  have c: "Math_cos someRaster (Num (884279719003555 / 2 ^ 49))
           = Num (4967757600021511 / 2 ^ 106)"
    by (simp add: someRaster_def quarterTurnCos_def)
  have s: "Math_sin someRaster (Num (884279719003555 / 2 ^ 49)) = Num 1"
    by (simp add: someRaster_def quarterTurnSin_def)
  have ca: "\<bar>4967757600021511 / 2 ^ 106 - cos (884279719003555 / 2 ^ 49 :: real)\<bar>
            \<le> 1 / 2 ^ 56"
  proof -
    have "(1::real) / 2 ^ 67 \<le> 1 / 2 ^ 56" by simp
    with quarterTurn_accurate(1) show ?thesis by (rule order_trans)
  qed
  have sa: "\<bar>1 - sin (884279719003555 / 2 ^ 49 :: real)\<bar> \<le> 1 / 2 ^ 56"
  proof -
    have "(1::real) / 2 ^ 100 \<le> 1 / 2 ^ 56" by simp
    with quarterTurn_accurate(2) show ?thesis by (rule order_trans)
  qed
  have r: "\<And>w h. rotatedContext someRaster wideCanvas (Num (884279719003555 / 2 ^ 49)) w h
                 \<noteq> None"
    by (simp add: someRaster_def)
  have "width (rotateCanvas someRaster wideCanvas (Num 90)) = 101"
    by (rule rotateCanvas_quarter_turn_width [OF a c ca s sa r])
  with a c ca s sa show ?thesis by (simp only: simp_thms)
qed

section \<open>Properties of the conversion\<close>

subsection \<open>The document\<close>

lemma drawn_addPage: "drawn (addPage pdf) = drawn pdf @ [[]]"
  by (simp add: drawn_def addPage_def imagesOn_def)

lemma drawn_onCurrentPage:
  "pages pdf \<noteq> [] \<Longrightarrow>
   drawn (onCurrentPage f pdf) = butlast (drawn pdf) @ [imagesOn (f (last (pages pdf)))]"
  by (simp add: drawn_def onCurrentPage_def map_butlast)

lemma drawn_setFontSize: "drawn (setFontSize n pdf) = drawn pdf"
  by (simp add: drawn_def setFontSize_def)

lemma drawn_setTextColor: "drawn (setTextColor r g b pdf) = drawn pdf"
  by (simp add: drawn_def setTextColor_def)

lemma pages_setFont: "pages (setTextColor r g b (setFontSize n pdf)) = pages pdf"
  by (simp add: setFontSize_def setTextColor_def)

lemma drawn_drawText:
  assumes "pages pdf \<noteq> []"
  shows "drawn (drawText str x y pdf) = drawn pdf"
proof -
  have ne: "drawn pdf \<noteq> []" using assms by (simp add: drawn_def)
  have "imagesOn (last (pages pdf) @ [DrawText str x y]) = last (drawn pdf)"
    using assms by (simp add: drawn_def last_map imagesOn_def)
  then have "drawn (drawText str x y pdf) = butlast (drawn pdf) @ [last (drawn pdf)]"
    using assms by (simp add: drawText_def drawn_onCurrentPage)
  also have "\<dots> = drawn pdf"
    using ne by (rule append_butlast_last_id)
  finally show ?thesis .
qed

lemma drawn_caption:
  "pages pdf \<noteq> [] \<Longrightarrow>
   drawn (drawText str x y (setTextColor r g b (setFontSize n pdf))) = drawn pdf"
  by (simp add: drawn_drawText pages_setFont drawn_setTextColor drawn_setFontSize)

lemma drawn_addImage:
  "pages pdf \<noteq> [] \<Longrightarrow> addImage env imgData x y w h pdf = Inr pdf2 \<Longrightarrow>
   drawn pdf2 = butlast (drawn pdf) @ [last (drawn pdf) @ [DrawImage imgData x y w h]]"
  by (auto simp: addImage_def drawn_onCurrentPage split: if_splits)
     (simp add: drawn_def last_map imagesOn_def)

lemma drawn_nonempty: "pages pdf \<noteq> [] \<Longrightarrow> drawn pdf \<noteq> []"
  by (simp add: drawn_def)

lemma pages_nonempty:
  "pages pdf \<noteq> [] \<Longrightarrow> pages (addPage pdf) \<noteq> []"
  "pages (onCurrentPage f pdf) \<noteq> []"
  "pages (drawText str x y pdf) \<noteq> []"
  "pages pdf \<noteq> [] \<Longrightarrow> pages (setFontSize n pdf) \<noteq> []"
  "pages pdf \<noteq> [] \<Longrightarrow> pages (setTextColor r g b pdf) \<noteq> []"
  by (simp_all add: addPage_def onCurrentPage_def drawText_def setFontSize_def setTextColor_def)

lemma pages_addImage:
  "addImage env imgData x y w h pdf = Inr pdf2 \<Longrightarrow> pages pdf2 \<noteq> []"
  by (auto simp: addImage_def onCurrentPage_def split: if_splits)

lemma addImage_accepted:
  "\<not> addImageRejects env imgData \<Longrightarrow>
   addImage env imgData x y w h pdf
     = Inr (onCurrentPage (\<lambda>page. page @ [DrawImage imgData x y w h]) pdf)"
  by (simp add: addImage_def)

lemma drawn_draw_image:
  assumes "pages pdf \<noteq> []"
  shows "drawn (onCurrentPage (\<lambda>page. page @ [DrawImage imgData x y w h]) pdf)
         = butlast (drawn pdf) @ [last (drawn pdf) @ [DrawImage imgData x y w h]]"
  using assms by (simp add: drawn_onCurrentPage) (simp add: drawn_def last_map imagesOn_def)

lemma concat_butlast_last:
  "D \<noteq> [] \<Longrightarrow> concat (butlast D @ [last D @ xs]) = concat D @ xs"
proof -
  assume "D \<noteq> []"
  then have "concat D = concat (butlast D @ [last D])" by simp
  then show ?thesis by simp
qed

lemma placedImages_outputBlob:
  "placedImages (outputBlob pdf) = map imageDataOf (concat (drawn pdf))"
  by (simp add: placedImages_def outputBlob_def drawn_def)

lemma pages_createPDFDocument:
  "pages (createPDFDocument settings) \<noteq> []" "concat (drawn (createPDFDocument settings)) = []"
  by (simp_all add: createPDFDocument_def drawn_def imagesOn_def)

lemma rasterized_SomeD:
  "rasterized env settings img = Some (canvas, imgData) \<Longrightarrow>
   processImage env img = Inr canvas
   \<and> toDataURL env canvas (getQualityValue settings) = Inr imgData
   \<and> \<not> addImageRejects env imgData"
  by (auto simp: rasterized_def split: sum.splits if_splits)

lemma rasterized_NoneD:
  "rasterized env settings img = None \<Longrightarrow>
   (\<exists>e. processImage env img = Inl e)
   \<or> (\<exists>canvas e. processImage env img = Inr canvas
         \<and> toDataURL env canvas (getQualityValue settings) = Inl e)
   \<or> (\<exists>canvas imgData. processImage env img = Inr canvas
         \<and> toDataURL env canvas (getQualityValue settings) = Inr imgData
         \<and> addImageRejects env imgData)"
  by (auto simp: rasterized_def split: sum.splits if_splits)

lemma imageDataOf_centredImage: "imageDataOf (centredImage settings r) = snd r"
  by (simp add: centredImage_def Let_def)

lemma imageDataOf_gridSlot: "imageDataOf (gridSlot settings n r) = snd r"
  by (simp add: gridSlot_def)

lemma gridImage_slot: "gridImage settings i r = gridSlot settings (i mod 4) r"
  by (simp add: gridImage_def gridSlot_def Let_def)

subsection \<open>The loop of the one-per-page layout\<close>

lemma onePerPageStep_ok:
  assumes "rasterized env settings img = Some (canvas, imgData)" and "pages pdf \<noteq> []"
  defines "maxWidth \<equiv> width (getPageDimensions settings) - 20 * 2"
      and "maxHeight \<equiv> height (getPageDimensions settings) - 20 * 2"
  defines "d \<equiv> scaledSize (width canvas) (height canvas) maxWidth maxHeight"
  defines "op \<equiv> DrawImage imgData (20 + (maxWidth - width d) / 2) (20 + (maxHeight - height d) / 2) (width d) (height d)"
  shows "drawn (onePerPageStep env settings i img pdf) =
           (if i > 0 then drawn pdf @ [[op]] else butlast (drawn pdf) @ [last (drawn pdf) @ [op]])"
    and "pages (onePerPageStep env settings i img pdf) \<noteq> []"
proof -
  from rasterized_SomeD [OF assms(1)] have
    p: "processImage env img = Inr canvas"
    and t: "toDataURL env canvas (getQualityValue settings) = Inr imgData"
    and r: "\<not> addImageRejects env imgData" by simp_all
  let ?pdf1 = "if i > 0 then addPage pdf else pdf"
  have ne1: "pages ?pdf1 \<noteq> []" using assms(2) by (simp add: pages_nonempty)
  obtain pdf2 where a: "addImage env imgData (20 + (maxWidth - width d) / 2) (20 + (maxHeight - height d) / 2) (width d) (height d) ?pdf1 = Inr pdf2"
    using r by (simp add: addImage_def)
  have ne2: "pages pdf2 \<noteq> []" using a by (rule pages_addImage)
  have d2: "drawn pdf2 = butlast (drawn ?pdf1) @ [last (drawn ?pdf1) @ [op]]"
    unfolding op_def using ne1 a by (rule drawn_addImage)
  have step: "onePerPageStep env settings i img pdf = pdf2
     \<or> onePerPageStep env settings i img pdf = drawText (name img) (20 + (maxWidth - width d) / 2) (20 + (maxHeight - height d) / 2 + height d + 10) (setTextColor 100 100 100 (setFontSize 10 pdf2))"
    using p t a unfolding onePerPageStep_def maxWidth_def maxHeight_def d_def
    by (simp add: Let_def)
  then have "drawn (onePerPageStep env settings i img pdf) = drawn pdf2"
    using ne2 by (auto simp: drawn_caption)
  then show "drawn (onePerPageStep env settings i img pdf) =
           (if i > 0 then drawn pdf @ [[op]] else butlast (drawn pdf) @ [last (drawn pdf) @ [op]])"
    unfolding d2 by (simp add: drawn_addPage)
  from step ne2 show "pages (onePerPageStep env settings i img pdf) \<noteq> []"
    by (auto simp: pages_nonempty)
qed

lemma onePerPageStep_centred:
  assumes "rasterized env settings img = Some r" and "pages pdf \<noteq> []"
  shows "drawn (onePerPageStep env settings i img pdf) =
           (if i > 0 then drawn pdf @ [[centredImage settings r]]
            else butlast (drawn pdf) @ [last (drawn pdf) @ [centredImage settings r]])"
  using onePerPageStep_ok(1) [of env settings img "fst r" "snd r" pdf i] assms
  by (simp add: centredImage_def Let_def)

lemma onePerPageStep_failed:
  assumes "rasterized env settings img = None" and "pages pdf \<noteq> []"
  shows "concat (drawn (onePerPageStep env settings i img pdf)) = concat (drawn pdf)"
    and "pages (onePerPageStep env settings i img pdf) \<noteq> []"
proof -
  let ?pdf1 = "if i > 0 then addPage pdf else pdf"
  have "onePerPageStep env settings i img pdf = pdf
        \<or> onePerPageStep env settings i img pdf = ?pdf1"
    using rasterized_NoneD [OF assms(1)]
    by (auto simp: onePerPageStep_def Let_def addImage_def)
  then show "concat (drawn (onePerPageStep env settings i img pdf)) = concat (drawn pdf)"
    and "pages (onePerPageStep env settings i img pdf) \<noteq> []"
    using assms(2) by (auto simp: drawn_addPage pages_nonempty split: if_splits)
qed

lemma onePerPageStep_placed:
  assumes "pages pdf \<noteq> []"
  shows "map imageDataOf (concat (drawn (onePerPageStep env settings i img pdf)))
         = map imageDataOf (concat (drawn pdf))
           @ (case placedBy env settings img of None \<Rightarrow> [] | Some d \<Rightarrow> [d])"
    and "pages (onePerPageStep env settings i img pdf) \<noteq> []"
proof -
  have "map imageDataOf (concat (drawn (onePerPageStep env settings i img pdf)))
         = map imageDataOf (concat (drawn pdf))
           @ (case placedBy env settings img of None \<Rightarrow> [] | Some d \<Rightarrow> [d])
        \<and> pages (onePerPageStep env settings i img pdf) \<noteq> []"
  proof (cases "rasterized env settings img")
    case None
    from onePerPageStep_failed [OF None assms, of i] None show ?thesis
      by (simp add: placedBy_def)
  next
    case (Some r)
    have "concat (drawn (onePerPageStep env settings i img pdf))
          = concat (drawn pdf) @ [centredImage settings r]"
    proof (cases "i > 0")
      case True
      then show ?thesis
        unfolding onePerPageStep_centred [OF Some assms] by simp
    next
      case False
      then have "drawn (onePerPageStep env settings i img pdf)
          = butlast (drawn pdf) @ [last (drawn pdf) @ [centredImage settings r]]"
        unfolding onePerPageStep_centred [OF Some assms] by simp
      then show ?thesis
        using concat_butlast_last [OF drawn_nonempty [OF assms]] by simp
    qed
    moreover have "pages (onePerPageStep env settings i img pdf) \<noteq> []"
      using onePerPageStep_ok(2) [of env settings img "fst r" "snd r" pdf i] Some assms by simp
    ultimately show ?thesis
      using Some by (simp add: placedBy_def imageDataOf_centredImage)
  qed
  then show "map imageDataOf (concat (drawn (onePerPageStep env settings i img pdf)))
         = map imageDataOf (concat (drawn pdf))
           @ (case placedBy env settings img of None \<Rightarrow> [] | Some d \<Rightarrow> [d])"
    and "pages (onePerPageStep env settings i img pdf) \<noteq> []" by simp_all
qed


lemma convertOnePerPageFrom_placed:
  "pages pdf \<noteq> [] \<Longrightarrow>
   map imageDataOf (concat (drawn (convertOnePerPageFrom env settings i imgs pdf)))
   = map imageDataOf (concat (drawn pdf)) @ List.map_filter (placedBy env settings) imgs"
proof (induction imgs arbitrary: i pdf)
  case Nil
  then show ?case by (simp add: List.map_filter_simps)
next
  case (Cons img imgs)
  from onePerPageStep_placed [OF Cons.prems, of env settings i img]
  have s: "map imageDataOf (concat (drawn (onePerPageStep env settings i img pdf)))
         = map imageDataOf (concat (drawn pdf))
           @ (case placedBy env settings img of None \<Rightarrow> [] | Some d \<Rightarrow> [d])"
    and ne: "pages (onePerPageStep env settings i img pdf) \<noteq> []" by simp_all
  show ?case
    using Cons.IH [OF ne, of "Suc i"] s
    by (simp add: List.map_filter_simps split: option.splits)
qed


subsection \<open>The loop of the grid layout\<close>

lemma multiplePerPageStep_slot:
  fixes i :: nat and st :: GridState and settings :: PDFSettings and img :: "'a ImageData_scheme"
    and r :: "Canvas \<times> string" and env :: Raster
  assumes "rasterized env settings img = Some r"
  defines "n \<equiv> imagesOnCurrentPage st"
  defines "pdf1 \<equiv> (if n = 0 \<and> i > 0 then addPage (doc st) else doc st)"
  defines "pdf2 \<equiv> onCurrentPage (\<lambda>page. page @ [gridSlot settings n r]) pdf1"
  defines "st' \<equiv> multiplePerPageStep env settings i img st"
  shows "(doc st' = pdf2
      \<or> (\<exists>X Y. doc st' = drawText (name img) X Y (setTextColor 100 100 100 (setFontSize 8 pdf2))))
     \<and> imagesOnCurrentPage st' = (if 4 \<le> n + 1 then 0 else n + 1)"
proof -
  obtain canvas imgData where rr: "r = (canvas, imgData)" by (cases r)
  from rasterized_SomeD [OF assms(1) [unfolded rr]] have
    p: "processImage env img = Inr canvas"
    and t: "toDataURL env canvas (getQualityValue settings) = Inr imgData"
    and rj: "\<not> addImageRejects env imgData" by simp_all
  show ?thesis
  proof (cases "n = 0")
    case True
    then have n0: "imagesOnCurrentPage st = 0" by (simp add: n_def)
    show ?thesis
      unfolding st'_def pdf2_def pdf1_def multiplePerPageStep_def
      using p t True
      by (auto simp: n0 Let_def addImage_accepted [OF rj] gridSlot_def rr)
  next
    case False
    then have n0: "imagesOnCurrentPage st \<noteq> 0" by (simp add: n_def)
    show ?thesis
      unfolding st'_def pdf2_def pdf1_def multiplePerPageStep_def
      using p t False
      by (auto simp: n0 n_def Let_def addImage_accepted [OF rj] gridSlot_def rr)
  qed
qed

lemma multiplePerPageStep_ok:
  fixes i k :: nat and st :: GridState and settings :: PDFSettings
    and img :: "'a ImageData_scheme" and r :: "Canvas \<times> string" and env :: Raster
  assumes "rasterized env settings img = Some r" and "pages (doc st) \<noteq> []"
    and "imagesOnCurrentPage st = k mod 4"
  defines "st' \<equiv> multiplePerPageStep env settings i img st"
  defines "D1 \<equiv> (if k mod 4 = 0 \<and> i > 0 then drawn (doc st) @ [[]] else drawn (doc st))"
  shows "drawn (doc st') = butlast D1 @ [last D1 @ [gridImage settings k r]]"
    and "imagesOnCurrentPage st' = Suc k mod 4"
    and "pages (doc st') \<noteq> []"
proof -
  let ?pdf1 = "if k mod 4 = 0 \<and> i > 0 then addPage (doc st) else doc st"
  let ?pdf2 = "onCurrentPage (\<lambda>page. page @ [gridSlot settings (k mod 4) r]) ?pdf1"
  have ne1: "pages ?pdf1 \<noteq> []" using assms(2) by (simp add: pages_nonempty)
  have D1: "drawn ?pdf1 = D1" by (simp add: D1_def drawn_addPage)
  have ne2: "pages ?pdf2 \<noteq> []" by (rule pages_nonempty)
  have d2: "drawn ?pdf2 = butlast D1 @ [last D1 @ [gridImage settings k r]]"
    unfolding gridImage_slot gridSlot_def using drawn_draw_image [OF ne1] unfolding D1 .
  have m: "(if 4 \<le> k mod 4 + 1 then 0 else k mod 4 + 1) = Suc k mod 4"
    by (simp add: mod_Suc) presburger
  have step: "(doc st' = ?pdf2
      \<or> (\<exists>X Y. doc st' = drawText (name img) X Y (setTextColor 100 100 100 (setFontSize 8 ?pdf2))))
     \<and> imagesOnCurrentPage st' = Suc k mod 4"
    using multiplePerPageStep_slot [OF assms(1), where st = st and i = i]
    unfolding assms(3) m st'_def .
  then have "drawn (doc st') = drawn ?pdf2"
    using ne2 by (auto simp: drawn_caption)
  then show "drawn (doc st') = butlast D1 @ [last D1 @ [gridImage settings k r]]"
    unfolding d2 .
  from step show "imagesOnCurrentPage st' = Suc k mod 4" by simp
  from step ne2 show "pages (doc st') \<noteq> []"
    by (auto simp: pages_nonempty)
qed

lemma multiplePerPageStep_failed:
  fixes i :: nat and st :: GridState and settings :: PDFSettings
    and img :: "'a ImageData_scheme" and env :: Raster
  assumes "rasterized env settings img = None" and "pages (doc st) \<noteq> []"
  defines "st' \<equiv> multiplePerPageStep env settings i img st"
  shows "concat (drawn (doc st')) = concat (drawn (doc st))"
    and "pages (doc st') \<noteq> []"
proof -
  let ?st1 = "if imagesOnCurrentPage st = 0
              then \<lparr>doc = (if i > 0 then addPage (doc st) else doc st),
                    currentPage = currentPage st + 1, imagesOnCurrentPage = 0\<rparr>
              else st"
  have "st' = ?st1"
    using rasterized_NoneD [OF assms(1)] unfolding st'_def multiplePerPageStep_def
    by (auto simp: Let_def addImage_def)
  then have "doc st' = doc st \<or> doc st' = addPage (doc st)"
    by (simp split: if_splits)
  then show "concat (drawn (doc st')) = concat (drawn (doc st))" and "pages (doc st') \<noteq> []"
    using assms(2) by (auto simp: drawn_addPage pages_nonempty)
qed

lemma multiplePerPageStep_placed:
  fixes i :: nat and st :: GridState and settings :: PDFSettings
    and img :: "'a ImageData_scheme" and env :: Raster
  assumes "pages (doc st) \<noteq> []"
  defines "st' \<equiv> multiplePerPageStep env settings i img st"
  shows "map imageDataOf (concat (drawn (doc st')))
         = map imageDataOf (concat (drawn (doc st)))
           @ (case placedBy env settings img of None \<Rightarrow> [] | Some d \<Rightarrow> [d])"
    and "pages (doc st') \<noteq> []"
proof -
  have "map imageDataOf (concat (drawn (doc st')))
         = map imageDataOf (concat (drawn (doc st)))
           @ (case placedBy env settings img of None \<Rightarrow> [] | Some d \<Rightarrow> [d])
        \<and> pages (doc st') \<noteq> []"
  proof (cases "rasterized env settings img")
    case None
    from multiplePerPageStep_failed [OF None assms(1), of i] None show ?thesis
      by (simp add: placedBy_def st'_def)
  next
    case (Some r)
    let ?n = "imagesOnCurrentPage st"
    let ?pdf1 = "if ?n = 0 \<and> i > 0 then addPage (doc st) else doc st"
    let ?pdf2 = "onCurrentPage (\<lambda>page. page @ [gridSlot settings ?n r]) ?pdf1"
    have ne1: "pages ?pdf1 \<noteq> []" using assms(1) by (simp add: pages_nonempty)
    have ne2: "pages ?pdf2 \<noteq> []" by (rule pages_nonempty)
    have c1: "concat (drawn ?pdf1) = concat (drawn (doc st))"
      by (simp add: drawn_addPage)
    have "drawn ?pdf2 = butlast (drawn ?pdf1) @ [last (drawn ?pdf1) @ [gridSlot settings ?n r]]"
      unfolding gridSlot_def by (rule drawn_draw_image [OF ne1])
    then have "concat (drawn ?pdf2) = concat (drawn ?pdf1) @ [gridSlot settings ?n r]"
      using concat_butlast_last [OF drawn_nonempty [OF ne1]] by simp
    then have c2: "concat (drawn ?pdf2) = concat (drawn (doc st)) @ [gridSlot settings ?n r]"
      unfolding c1 .
    from multiplePerPageStep_slot [OF Some, where st = st and i = i]
    have "doc st' = ?pdf2
      \<or> (\<exists>X Y. doc st' = drawText (name img) X Y (setTextColor 100 100 100 (setFontSize 8 ?pdf2)))"
      unfolding st'_def by simp
    then have "drawn (doc st') = drawn ?pdf2 \<and> pages (doc st') \<noteq> []"
      using ne2 by (auto simp: drawn_caption pages_nonempty)
    then show ?thesis
      using Some c2 by (simp add: placedBy_def imageDataOf_gridSlot)
  qed
  then show "map imageDataOf (concat (drawn (doc st')))
         = map imageDataOf (concat (drawn (doc st)))
           @ (case placedBy env settings img of None \<Rightarrow> [] | Some d \<Rightarrow> [d])"
    and "pages (doc st') \<noteq> []" by simp_all
qed

lemma convertMultiplePerPageFrom_snoc:
  "convertMultiplePerPageFrom env settings i (imgs @ [img]) st =
   multiplePerPageStep env settings (i + length imgs) img
     (convertMultiplePerPageFrom env settings i imgs st)"
  by (induction imgs arbitrary: i st) simp_all

lemma convertMultiplePerPageFrom_placed:
  "pages (doc st) \<noteq> [] \<Longrightarrow>
   map imageDataOf (concat (drawn (doc (convertMultiplePerPageFrom env settings i imgs st))))
   = map imageDataOf (concat (drawn (doc st))) @ List.map_filter (placedBy env settings) imgs"
proof (induction imgs arbitrary: i st)
  case Nil
  then show ?case by (simp add: List.map_filter_simps)
next
  case (Cons img imgs)
  from multiplePerPageStep_placed [OF Cons.prems, of env settings i img]
  have s: "map imageDataOf (concat (drawn (doc (multiplePerPageStep env settings i img st))))
         = map imageDataOf (concat (drawn (doc st)))
           @ (case placedBy env settings img of None \<Rightarrow> [] | Some d \<Rightarrow> [d])"
    and ne: "pages (doc (multiplePerPageStep env settings i img st)) \<noteq> []" by simp_all
  show ?case
    using Cons.IH [OF ne, of "Suc i"] s
    by (simp add: List.map_filter_simps split: option.splits)
qed

lemma gridPages_0: "gridPages f 0 = [[]]"
  by (simp add: gridPages_def)

lemma gridPages_Suc:
  "gridPages f (Suc k) =
     (let D1 = (if k mod 4 = 0 \<and> k > 0 then gridPages f k @ [[]] else gridPages f k)
      in butlast D1 @ [last D1 @ [f k]])"
proof -
  define q where "q = k div 4"
  define m where "m = k mod 4"
  have k: "k = 4 * q + m" and m: "m < 4" by (simp_all add: q_def m_def)
  have dm: "(4 * q + m) div 4 = q" "(4 * q + m) mod 4 = m"
    using m by simp_all
  have up: "[4 * q..<Suc (4 * q + m)] = [4 * q..<4 * q + m] @ [4 * q + m]"
    by simp
  consider (new) "m = 0" "q > 0" | (zero) "m = 0" "q = 0" | (full) "m = 3" | (mid) "m = 1 \<or> m = 2"
    using m by linarith
  then show ?thesis
  proof cases
    case new
    have "Suc (4 * q) div 4 = q" "Suc (4 * q) mod 4 = 1" by presburger+
    with new show ?thesis
      unfolding k by (simp add: gridPages_def Let_def)
  next
    case zero
    then show ?thesis unfolding k by (simp add: gridPages_def Let_def)
  next
    case full
    have a: "Suc (4 * q + 3) div 4 = Suc q" "Suc (4 * q + 3) mod 4 = 0" by presburger+
    have s: "4 * q + 4 = Suc (4 * q + 3)" by simp
    have b: "[4 * q..<4 * q + 4] = [4 * q..<4 * q + 3] @ [4 * q + 3]"
      unfolding s by (rule upt_Suc_append) simp
    have c: "[0..<Suc q] = [0..<q] @ [q]" by simp
    show ?thesis
      unfolding k full gridPages_def Let_def a dm [unfolded full]
      by (simp add: b c del: upt_Suc)
  next
    case mid
    then have a: "Suc (4 * q + m) div 4 = q" "Suc (4 * q + m) mod 4 = Suc m" by presburger+
    show ?thesis
      unfolding k gridPages_def Let_def a dm using mid
      by (auto simp del: upt_Suc simp add: up)
  qed
qed

lemma gridPages_length: "0 < n \<Longrightarrow> length (gridPages f n) = (n + 3) div 4"
  unfolding gridPages_def by (simp split: if_splits) presburger

lemma gridPages_page_length: "p < length (gridPages f n) \<Longrightarrow> length (gridPages f n ! p) \<le> 4"
  unfolding gridPages_def by (auto simp: nth_append less_Suc_eq split: if_splits)

lemma gridPages_nth:
  assumes "i < n"
  shows "i mod 4 < length (gridPages f n ! (i div 4))
         \<and> gridPages f n ! (i div 4) ! (i mod 4) = f i"
proof -
  define p where "p = i div 4"
  define a where "a = i mod 4"
  define q where "q = n div 4"
  define b where "b = n mod 4"
  have i: "i = 4 * p + a" and a: "a < 4" by (simp_all add: p_def a_def)
  have n: "n = 4 * q + b" and b: "b < 4" by (simp_all add: q_def b_def)
  show ?thesis
  proof (cases "p < q")
    case True
    then have "gridPages f n ! p = map f [4 * p..<4 * p + 4]"
      by (simp add: gridPages_def nth_append q_def [symmetric])
    moreover have "[4 * p..<4 * p + 4] ! a = 4 * p + a"
      using a by (intro nth_upt) simp
    ultimately show ?thesis
      using a unfolding p_def [symmetric] a_def [symmetric] by (simp add: i)
  next
    case False
    with assms i n a b have pq: "p = q" and lt: "a < b" by linarith+
    then have nz: "b \<noteq> 0" by simp
    have "gridPages f n ! p = map f [4 * q..<n]"
      using nz by (simp add: gridPages_def pq nth_append q_def [symmetric] b_def [symmetric])
    moreover have "4 * q + a < n"
      using lt n by linarith
    moreover from this have "[4 * q..<n] ! a = 4 * q + a"
      by (intro nth_upt)
    moreover have "length [4 * q..<n] = b"
      using n by simp
    ultimately show ?thesis
      using lt unfolding p_def [symmetric] a_def [symmetric] by (simp add: i pq)
  qed
qed

lemma convertMultiplePerPage_all:
  fixes imgs :: "'a ImageData_scheme list"
  assumes "map (rasterized env settings) imgs = map Some rs"
  defines "st k \<equiv> convertMultiplePerPageFrom env settings 0 (take k imgs)
                    \<lparr>doc = createPDFDocument settings, currentPage = 0, imagesOnCurrentPage = 0\<rparr>"
  shows "k \<le> length imgs \<Longrightarrow>
         imagesOnCurrentPage (st k) = k mod 4 \<and> pages (doc (st k)) \<noteq> []
         \<and> drawn (doc (st k)) = gridPages (\<lambda>i. gridImage settings i (rs ! i)) k"
proof (induction k)
  case 0
  show ?case
    by (simp add: st_def gridPages_0 drawn_def createPDFDocument_def imagesOn_def)
next
  case (Suc k)
  then have k: "k < length imgs" by simp
  from Suc have ih: "imagesOnCurrentPage (st k) = k mod 4" "pages (doc (st k)) \<noteq> []"
    "drawn (doc (st k)) = gridPages (\<lambda>i. gridImage settings i (rs ! i)) k" by simp_all
  have "length rs = length imgs"
    using arg_cong [OF assms(1), of length] by simp
  with k have r: "rasterized env settings (imgs ! k) = Some (rs ! k)"
    using arg_cong [OF assms(1), of "\<lambda>xs. xs ! k"] by simp
  have next_st: "st (Suc k) = multiplePerPageStep env settings k (imgs ! k) (st k)"
    using k by (simp add: st_def take_Suc_conv_app_nth convertMultiplePerPageFrom_snoc)
  note ok = multiplePerPageStep_ok [OF r ih(2) ih(1), of k, unfolded ih(3)]
  show ?case
    unfolding next_st gridPages_Suc Let_def using ok by simp
qed

subsection \<open>The concrete inputs\<close>

lemma rasterized_plainImage:
  "rasterized someRaster settings (plainImage i) = Some (someCanvas, ''data:image/jpeg'')"
  by (simp add: rasterized_def processImage_def someRaster_def plainImage_def someCanvas_def)

lemma rasterized_brokenImage: "rasterized someRaster settings brokenImage = None"
  by (simp add: rasterized_def processImage_def someRaster_def plainImage_def brokenImage_def)

subsection \<open>Rejection and failure of single images\<close>

text \<open>
  Claim C10. \<open>convertToPDF\<close> rejects with the error \<open>No images provided for conversion\<close>
  exactly when the list of images is empty; for a non-empty list it returns a PDF blob.
\<close>

theorem convertToPDF_rejects_iff_empty:
  "(convertToPDF env settings imgs = Inl (Error ''No images provided for conversion'')) = (imgs = [])
   \<and> (imgs \<noteq> [] \<longrightarrow> (\<exists>blob. convertToPDF env settings imgs = Inr blob))"
  by (simp add: convertToPDF_def Let_def)

theorem convertToPDF_rejects_iff_empty_witness:
  "convertToPDF someRaster (a4 OnePerPage) ([] :: ImageFile list)
     = Inl (Error ''No images provided for conversion'')
   \<and> [plainImage ''a''] \<noteq> []
   \<and> (\<exists>blob. convertToPDF someRaster (a4 OnePerPage) [plainImage ''a''] = Inr blob)"
  using convertToPDF_rejects_iff_empty [of someRaster "a4 OnePerPage" "[] :: ImageFile list"]
    convertToPDF_rejects_iff_empty [of someRaster "a4 OnePerPage" "[plainImage ''a'']"]
  by simp

text \<open>
  Claim C4. For a non-empty list of images, in either layout, \<open>convertToPDF\<close> returns a
  PDF blob, whatever fails on single images; the images placed in it are, in the order
  of the list, those whose rasterising (\<open>processImage\<close>, \<open>toDataURL\<close>) and placing
  (\<open>addImage\<close>) succeed. An image on which one of them fails is skipped: it contributes
  no placed image, and what the other images contribute is not changed by it.
\<close>

theorem convertToPDF_skips_failed_images:
  assumes "imgs \<noteq> []"
  shows "\<exists>blob. convertToPDF env settings imgs = Inr blob
           \<and> placedImages blob = List.map_filter (placedBy env settings) imgs"
proof (cases "layout settings = OnePerPage")
  case True
  with assms have "convertToPDF env settings imgs
      = Inr (outputBlob (convertOnePerPageFrom env settings 0 imgs (createPDFDocument settings)))"
    by (simp add: convertToPDF_def convertOnePerPage_def)
  then show ?thesis
    using convertOnePerPageFrom_placed [OF pages_createPDFDocument(1), of env settings 0 imgs]
    by (simp add: placedImages_outputBlob pages_createPDFDocument(2))
next
  case False
  with assms have "convertToPDF env settings imgs
      = Inr (outputBlob (doc (convertMultiplePerPageFrom env settings 0 imgs
          \<lparr>doc = createPDFDocument settings, currentPage = 0, imagesOnCurrentPage = 0\<rparr>)))"
    by (simp add: convertToPDF_def convertMultiplePerPage_def)
  then show ?thesis
    using convertMultiplePerPageFrom_placed [of "\<lparr>doc = createPDFDocument settings, currentPage = 0, imagesOnCurrentPage = 0\<rparr>" env settings 0 imgs]
    by (simp add: placedImages_outputBlob pages_createPDFDocument)
qed

theorem convertToPDF_skips_failed_images_witness:
  "[plainImage ''a'', brokenImage, plainImage ''b''] \<noteq> []
   \<and> rasterized someRaster (a4 OnePerPage) brokenImage = None
   \<and> (\<exists>blob. convertToPDF someRaster (a4 OnePerPage)
                [plainImage ''a'', brokenImage, plainImage ''b''] = Inr blob
          \<and> placedImages blob = [''data:image/jpeg'', ''data:image/jpeg''])
   \<and> (\<exists>blob. convertToPDF someRaster (a4 MultiplePerPage)
                [plainImage ''a'', brokenImage, plainImage ''b''] = Inr blob
          \<and> placedImages blob = [''data:image/jpeg'', ''data:image/jpeg''])"
proof -
  have ne: "[plainImage ''a'', brokenImage, plainImage ''b''] \<noteq> []" by simp
  have m: "List.map_filter (placedBy someRaster settings)
             [plainImage ''a'', brokenImage, plainImage ''b'']
           = [''data:image/jpeg'', ''data:image/jpeg'']" for settings
    by (simp add: List.map_filter_simps placedBy_def rasterized_plainImage
        rasterized_brokenImage)
  show ?thesis
    using convertToPDF_skips_failed_images [OF ne, of someRaster "a4 OnePerPage", unfolded m]
      convertToPDF_skips_failed_images [OF ne, of someRaster "a4 MultiplePerPage", unfolded m]
    by (simp add: rasterized_brokenImage)
qed

subsection \<open>The layouts\<close>



text \<open>
  Claim C6. When every image of a non-empty list of \<open>n\<close> images is rasterised and
  placed, the grid layout yields exactly \<open>\<lceil>n / 4\<rceil>\<close> pages with at most four images
  each; the image at list index \<open>i\<close> is the image number \<open>i mod 4\<close> of the page at index
  \<open>i div 4\<close> (page \<open>i div 4 + 1\<close>), drawn in column \<open>(i mod 4) mod 2\<close> and row
  \<open>(i mod 4) div 2\<close> of the grid, and every cell has the width \<open>(maxWidth - margin) / 2\<close>
  and the height \<open>(maxHeight - margin) / 2\<close>, with a margin of 15 mm.
\<close>

theorem convertMultiplePerPage_layout:
  assumes "layout settings = MultiplePerPage" and "imgs \<noteq> []"
    and "map (rasterized env settings) imgs = map Some rs"
  shows "\<exists>blob. convertToPDF env settings imgs = Inr blob
           \<and> length (blobPages blob) = (length imgs + 3) div 4
           \<and> (\<forall>p<length (blobPages blob). length (imagesOn (blobPages blob ! p)) \<le> 4)
           \<and> (\<forall>i<length imgs.
                 i mod 4 < length (imagesOn (blobPages blob ! (i div 4)))
                 \<and> imagesOn (blobPages blob ! (i div 4)) ! (i mod 4)
                     = gridImage settings i (rs ! i))"
proof -
  let ?st = "convertMultiplePerPageFrom env settings 0 imgs
               \<lparr>doc = createPDFDocument settings, currentPage = 0, imagesOnCurrentPage = 0\<rparr>"
  let ?f = "\<lambda>i. gridImage settings i (rs ! i)"
  let ?n = "length imgs"
  have c: "convertToPDF env settings imgs = Inr (outputBlob (doc ?st))"
    using assms(1,2) by (simp add: convertToPDF_def convertMultiplePerPage_def)
  from convertMultiplePerPage_all [OF assms(3), of ?n]
  have d: "map imagesOn (pages (doc ?st)) = gridPages ?f ?n"
    by (simp add: drawn_def)
  have n: "0 < ?n" using assms(2) by simp
  have l: "length (pages (doc ?st)) = (?n + 3) div 4"
    using arg_cong [OF d, of length] gridPages_length [OF n, of ?f] by simp
  have nth: "imagesOn (pages (doc ?st) ! p) = gridPages ?f ?n ! p" if "p < length (pages (doc ?st))" for p
    using that arg_cong [OF d, of "\<lambda>xs. xs ! p"] by simp
  have a: "\<forall>p<length (pages (doc ?st)). length (imagesOn (pages (doc ?st) ! p)) \<le> 4"
  proof (intro allI impI)
    fix p assume p: "p < length (pages (doc ?st))"
    then have "p < length (gridPages ?f ?n)"
      using arg_cong [OF d, of length] by simp
    then show "length (imagesOn (pages (doc ?st) ! p)) \<le> 4"
      unfolding nth [OF p] by (rule gridPages_page_length)
  qed
  have b: "\<forall>i<?n. i mod 4 < length (imagesOn (pages (doc ?st) ! (i div 4)))
                 \<and> imagesOn (pages (doc ?st) ! (i div 4)) ! (i mod 4) = ?f i"
  proof (intro allI impI)
    fix i assume i: "i < ?n"
    then have "i div 4 < (?n + 3) div 4" by presburger
    then have p: "i div 4 < length (pages (doc ?st))" using l by simp
    show "i mod 4 < length (imagesOn (pages (doc ?st) ! (i div 4)))
                 \<and> imagesOn (pages (doc ?st) ! (i div 4)) ! (i mod 4) = ?f i"
      unfolding nth [OF p] using i by (rule gridPages_nth)
  qed
  from c l a b show ?thesis by (simp add: outputBlob_def)
qed

theorem convertMultiplePerPage_layout_witness:
  "layout (a4 MultiplePerPage) = MultiplePerPage
   \<and> replicate 5 (plainImage ''a'') \<noteq> []
   \<and> map (rasterized someRaster (a4 MultiplePerPage)) (replicate 5 (plainImage ''a''))
       = map Some (replicate 5 (someCanvas, ''data:image/jpeg''))
   \<and> (\<exists>blob. convertToPDF someRaster (a4 MultiplePerPage) (replicate 5 (plainImage ''a''))
                = Inr blob
          \<and> length (blobPages blob) = 2
          \<and> imagesOn (blobPages blob ! 0) ! 3
              = DrawImage ''data:image/jpeg'' (225 / 2) 156 (165 / 2) 126
          \<and> imagesOn (blobPages blob ! 1) ! 0
              = DrawImage ''data:image/jpeg'' 15 15 (165 / 2) 126)"
proof -
  let ?imgs = "replicate 5 (plainImage ''a'')"
  let ?r = "(someCanvas, ''data:image/jpeg'')"
  let ?s = "a4 MultiplePerPage"
  have l: "layout ?s = MultiplePerPage" by (simp add: a4_def)
  have ne: "?imgs \<noteq> []" by simp
  have m: "map (rasterized someRaster ?s) ?imgs = map Some (replicate 5 ?r)"
    by (simp add: rasterized_plainImage)
  have g3: "gridImage ?s 3 ?r = DrawImage ''data:image/jpeg'' (225 / 2) 156 (165 / 2) 126"
    by (simp add: gridImage_def a4_def getPageDimensions_def Let_def)
  have g4: "gridImage ?s 4 ?r = DrawImage ''data:image/jpeg'' 15 15 (165 / 2) 126"
    by (simp add: gridImage_def a4_def getPageDimensions_def Let_def)
  from convertMultiplePerPage_layout [OF l ne m] obtain blob where
    b: "convertToPDF someRaster ?s ?imgs = Inr blob"
       "length (blobPages blob) = (length ?imgs + 3) div 4"
       "\<forall>i<length ?imgs. i mod 4 < length (imagesOn (blobPages blob ! (i div 4)))
            \<and> imagesOn (blobPages blob ! (i div 4)) ! (i mod 4)
                = gridImage ?s i (replicate 5 ?r ! i)"
    by blast
  from b(3) [rule_format, of 3]
  have i3: "imagesOn (blobPages blob ! 0) ! 3 = gridImage ?s 3 ?r" by simp
  from b(3) [rule_format, of 4]
  have i4: "imagesOn (blobPages blob ! 1) ! 0 = gridImage ?s 4 ?r" by simp
  from b(2) have "length (blobPages blob) = 2" by simp
  with b(1) i3 i4 g3 g4 l ne m show ?thesis by simp
qed

end
